theory Spec2Isabelle
  imports Complex_Main "HOL-Library.AList" "HOL-Library.Word"
begin

section \<open>Strings\<close>

text \<open>
  A JavaScript string is modelled as a \<open>string\<close>: a list of code units below 256.
  The character classes are the ones the regular expressions of \<^verbatim>\<open>utils.js\<close> name,
  restricted to that range: \<^verbatim>\<open>[0-9]\<close>, \<^verbatim>\<open>[a-zA-Z]\<close>, and the white space of
  \<^verbatim>\<open>\s\<close> and \<^verbatim>\<open>String.prototype.trim\<close> (TAB, LF, VT, FF, CR, SPACE, NBSP).
\<close>

definition isDigit :: "char \<Rightarrow> bool" where
  "isDigit c = (let n = (of_char c :: nat) in 48 \<le> n \<and> n \<le> 57)"

definition isLetter :: "char \<Rightarrow> bool" where
  "isLetter c = (let n = (of_char c :: nat) in (65 \<le> n \<and> n \<le> 90) \<or> (97 \<le> n \<and> n \<le> 122))"

definition isSpace :: "char \<Rightarrow> bool" where
  "isSpace c = (let n = (of_char c :: nat) in (9 \<le> n \<and> n \<le> 13) \<or> n = 32 \<or> n = 160)"

definition toLower :: "char \<Rightarrow> char" where
  "toLower c = (let n = (of_char c :: nat) in if 65 \<le> n \<and> n \<le> 90 then char_of (n + 32) else c)"

definition trim :: "string \<Rightarrow> string" where
  "trim s = rev (dropWhile isSpace (rev (dropWhile isSpace s)))"

text \<open>A value used as a condition: \<^verbatim>\<open>null\<close>, \<^verbatim>\<open>undefined\<close> and the empty string are falsy.\<close>

definition truthy :: "string option \<Rightarrow> bool" where
  "truthy v = (case v of None \<Rightarrow> False | Some s \<Rightarrow> s \<noteq> [])"

text \<open>The character of a decimal digit.\<close>

definition digitChar :: "nat \<Rightarrow> char" where
  "digitChar d = char_of (48 + d)"

text \<open>
  \<^verbatim>\<open>String(n)\<close> for an integer \<open>0 \<le> n < 2^53\<close>: its decimal digits. Every integer of that
  range is a Number and is printed with all its digits. From \<open>2^53\<close> on a Number is
  printed with at most 17 significant digits, and from \<open>10^21\<close> on with an exponent;
  \<open>showNat\<close> does not stand for \<^verbatim>\<open>String\<close> there.
\<close>

function showNat :: "nat \<Rightarrow> string" where
  "showNat n = (if n < 10 then [digitChar n] else showNat (n div 10) @ [digitChar (n mod 10)])"
  by pat_completeness auto
termination
  by (relation "measure id") auto

declare showNat.simps [simp del]

text \<open>\<^verbatim>\<open>s.split(d)\<close> for a one-character separator.\<close>

fun split_on :: "char \<Rightarrow> string \<Rightarrow> string list" where
  "split_on d [] = [[]]"
| "split_on d (c # cs) =
     (if c = d then [] # split_on d cs
      else (case split_on d cs of [] \<Rightarrow> [[c]] | w # ws \<Rightarrow> (c # w) # ws))"

section \<open>utils.js\<close>

subsection \<open>extractPackageId\<close>

text \<open>
  The result of \<^verbatim>\<open>new URL(...)\<close>, as far as \<^verbatim>\<open>extractPackageId\<close> reads it. The WHATWG
  parser is the platform's: every function below takes it as the parameter \<open>parseURL\<close>,
  which returns \<open>None\<close> where the constructor throws.
\<close>

record URL =
  hash :: string
  searchParams :: "(string \<times> string) list"
  pathname :: string

text \<open>\<^verbatim>\<open>/^[0-9]{3,}$/\<close> and \<^verbatim>\<open>/^[0-9]+$/\<close>.\<close>

definition digits3 :: "string \<Rightarrow> bool" where
  "digits3 s = (3 \<le> length s \<and> list_all isDigit s)"

definition digits1 :: "string \<Rightarrow> bool" where
  "digits1 s = (s \<noteq> [] \<and> list_all isDigit s)"

text \<open>
  \<^verbatim>\<open>/(?:package_(?:idx|id)|idx|no)=([0-9]+)/i\<close>: \<open>match_ci kw s\<close> reads the keyword at the head
  of \<open>s\<close>, ignoring case, and returns the rest; \<open>query_at\<close> tries the alternatives in the
  order the backtracking matcher does; \<open>queryMatch\<close> is the leftmost match, and its
  value the capture group.
\<close>

fun match_ci :: "string \<Rightarrow> string \<Rightarrow> string option" where
  "match_ci [] s = Some s"
| "match_ci (k # ks) [] = None"
| "match_ci (k # ks) (c # cs) = (if toLower c = toLower k then match_ci ks cs else None)"

fun first_key :: "string list \<Rightarrow> string \<Rightarrow> string option" where
  "first_key [] s = None"
| "first_key (kw # kws) s =
     (case match_ci (kw @ ''='') s of
        None \<Rightarrow> first_key kws s
      | Some r \<Rightarrow> (if takeWhile isDigit r = [] then first_key kws s
                  else Some (takeWhile isDigit r)))"

definition query_at :: "string \<Rightarrow> string option" where
  "query_at s = first_key [''package_idx'', ''package_id'', ''idx'', ''no''] s"

fun queryMatch :: "string \<Rightarrow> string option" where
  "queryMatch [] = query_at []"
| "queryMatch (c # cs) =
     (case query_at (c # cs) of Some v \<Rightarrow> Some v | None \<Rightarrow> queryMatch cs)"

text \<open>
  \<^verbatim>\<open>/([0-9]{3,})(?![a-zA-Z])/\<close>: at one position the greedy quantifier takes every digit
  and gives them back one at a time, down to three, until the lookahead holds;
  \<open>numericFallback\<close> is the leftmost match.
\<close>

definition letter_at :: "string \<Rightarrow> nat \<Rightarrow> bool" where
  "letter_at s k = (k < length s \<and> isLetter (s ! k))"

definition fallback_at :: "string \<Rightarrow> string option" where
  "fallback_at s =
     map_option (\<lambda>k. take k s)
       (find (\<lambda>k. \<not> letter_at s k) (rev [3 ..< Suc (length (takeWhile isDigit s))]))"

fun numericFallback :: "string \<Rightarrow> string option" where
  "numericFallback [] = fallback_at []"
| "numericFallback (c # cs) =
     (case fallback_at (c # cs) of Some v \<Rightarrow> Some v | None \<Rightarrow> numericFallback cs)"

text \<open>The body of the \<^verbatim>\<open>try\<close> block; \<open>None\<close> when it throws or falls through.\<close>

fun find_param :: "(string \<times> string) list \<Rightarrow> string list \<Rightarrow> string option" where
  "find_param ps [] = None"
| "find_param ps (key # keys) =
     (case map_of ps key of
        None \<Rightarrow> find_param ps keys
      | Some v \<Rightarrow> (if v \<noteq> [] \<and> digits1 v then Some v else find_param ps keys))"

definition url_step :: "(string \<Rightarrow> URL option) \<Rightarrow> string \<Rightarrow> string option" where
  "url_step parseURL trimmed =
     (case parseURL (if take 4 trimmed = ''http'' then trimmed else ''https://'' @ trimmed) of
        None \<Rightarrow> None
      | Some asUrl \<Rightarrow>
          (let h = (case hash asUrl of [] \<Rightarrow> [] | c # r \<Rightarrow> if c = CHR ''#'' then r else c # r)
           in if h \<noteq> [] \<and> digits3 h then Some h
              else (case find_param (searchParams asUrl)
                           [''package_idx'', ''package_id'', ''idx'', ''no'', ''id''] of
                      Some v \<Rightarrow> Some v
                    | None \<Rightarrow>
                        find digits3
                          (rev (filter (\<lambda>seg. seg \<noteq> []) (split_on CHR ''/'' (pathname asUrl)))))))"

definition extractPackageId :: "(string \<Rightarrow> URL option) \<Rightarrow> string \<Rightarrow> string option" where
  "extractPackageId parseURL input =
     (if input = [] then None
      else (let trimmed = trim input
            in if trimmed = [] then None
               else (case queryMatch trimmed of
                       Some v \<Rightarrow> Some v
                     | None \<Rightarrow>
                         (case url_step parseURL trimmed of
                            Some v \<Rightarrow> Some v
                          | None \<Rightarrow> numericFallback trimmed))))"

subsection \<open>sanitizeFilename\<close>

text \<open>\<^verbatim>\<open>FILENAME_SANITIZE_REGEX = /[\\/:*?"<>|\u0000-\u001f]/g\<close>.\<close>

definition hostile :: "char \<Rightarrow> bool" where
  "hostile c = (let n = (of_char c :: nat)
                in n \<in> {92, 47, 58, 42, 63, 34, 60, 62, 124} \<or> n < 32)"

text \<open>\<^verbatim>\<open>.replace(/\s+/g, ' ')\<close>: every maximal run of white space becomes one space.\<close>

function collapse_ws :: "string \<Rightarrow> string" where
  "collapse_ws [] = []"
| "collapse_ws (c # cs) =
     (if isSpace c then CHR '' '' # collapse_ws (dropWhile isSpace cs)
      else c # collapse_ws cs)"
  by pat_completeness auto
termination
  by (relation "measure length") (auto simp: less_Suc_eq_le length_dropWhile_le)

definition sanitizeFilename :: "string option \<Rightarrow> string \<Rightarrow> string" where
  "sanitizeFilename name fallback =
     (if \<not> truthy name then fallback
      else (let cleaned = trim (collapse_ws (map (\<lambda>c. if hostile c then CHR '' '' else c) (the name)))
            in if cleaned = [] then fallback else cleaned))"

subsection \<open>formatBytes\<close>

text \<open>
  The byte count is an integer \<open>0 \<le> n < 2^53\<close>, so the guard of line 64 (a value that is
  neither a number nor zero) never fires. The callers pass the length of a Buffer, which
  is in that range. There \<open>n\<close> is a Number, dividing it by 1024 is exact, so the scaled
  size \<open>sz\<close> is the rational \<open>n / 1024^k\<close>, and a whole \<open>sz\<close> is printed with all its
  digits (\<open>showNat\<close>). \<open>toFixed d x\<close> is \<^verbatim>\<open>Number.prototype.toFixed\<close> for \<open>0 \<le> x < 10^21\<close>:
  the integer nearest to \<open>x * 10^d\<close>, the larger one on a tie, written by \<open>withPoint\<close>
  with the point before its last \<open>d\<close> digits (zeros are put in front when it has no more
  than \<open>d\<close> digits). From \<open>2^53\<close> on the model is not the code (a byte count need not be
  a Number, and large values are printed rounded or with an exponent): what is proved
  of \<open>formatBytes\<close> as a rendering of numbers is stated below \<open>2^53\<close>.
\<close>

definition units :: "string list" where
  "units = [''B'', ''KB'', ''MB'', ''GB'']"

function scale :: "rat \<Rightarrow> nat \<Rightarrow> rat \<times> nat" where
  "scale sz unitIndex =
     (if 1024 \<le> sz \<and> unitIndex < length units - 1
      then scale (sz / 1024) (unitIndex + 1)
      else (sz, unitIndex))"
  by pat_completeness auto
termination
  by (relation "measure (\<lambda>(sz, unitIndex). length units - unitIndex)") (auto simp: units_def)

declare scale.simps [simp del]

definition withPoint :: "nat \<Rightarrow> nat \<Rightarrow> string" where
  "withPoint d n =
     (let m = showNat n;
          padded = replicate (Suc d - length m) CHR ''0'' @ m
      in if d = 0 then m
         else take (length padded - d) padded @ ''.'' @ drop (length padded - d) padded)"

definition toFixed :: "nat \<Rightarrow> rat \<Rightarrow> string" where
  "toFixed d x = withPoint d (nat \<lfloor>x * 10 ^ d + 1 / 2\<rfloor>)"

definition formatBytes :: "nat \<Rightarrow> string" where
  "formatBytes bytes =
     (case scale (of_nat bytes) 0 of
        (sz, unitIndex) \<Rightarrow>
          (if sz = of_int \<lfloor>sz\<rfloor> then showNat (nat \<lfloor>sz\<rfloor>)
           else toFixed (if 10 \<le> sz then 1 else 2) sz)
          @ '' '' @ units ! unitIndex)"

subsection \<open>buildArchiveFilename\<close>

definition buildArchiveFilename :: "string option \<Rightarrow> string option \<Rightarrow> string" where
  "buildArchiveFilename title packageId =
     (let safeTitle = sanitizeFilename title ''untitled'';
          suffix = (if truthy packageId then ''_'' @ the packageId else [])
      in (if safeTitle \<noteq> [] then safeTitle else ''dccon'') @ suffix @ ''.zip'')"

section \<open>The job queue\<close>

subsection \<open>Data\<close>

datatype status = Queued | Processing | Completed | Failed

text \<open>
  The four \<^verbatim>\<open>new Error(...)\<close> sites of the queue, with the \<^verbatim>\<open>statusCode\<close> each one sets.
\<close>

datatype error = SessionRequired | InvalidUrl | JobNotFound | NotReady

fun statusCode :: "error \<Rightarrow> nat" where
  "statusCode SessionRequired = 400"
| "statusCode InvalidUrl = 400"
| "statusCode JobNotFound = 404"
| "statusCode NotReady = 409"

type_synonym bytes = "8 word list"

text \<open>The \<^verbatim>\<open>info\<close> object of the site's reply: its title and its other members.\<close>

record info =
  info_title :: "string option"
  info_rest :: "(string \<times> string) list"

text \<open>
  An item as the downloader builds it. \<open>it_buffer\<close> and \<open>it_mimeType\<close> are
  optional because \<^verbatim>\<open>summariseItems\<close> tests them.
\<close>

record item =
  it_idx :: string
  it_packageIdx :: string
  it_title :: string
  it_sort :: nat
  it_ext :: string
  it_path :: string
  it_buffer :: "bytes option"
  it_mimeType :: "string option"
  it_size :: nat
  it_resized :: bool

record preview =
  pv_idx :: string
  pv_title :: string
  pv_mimeType :: "string option"
  pv_dataUrl :: "string option"

record zip =
  zip_buffer :: bytes
  zip_filename :: string
  zip_size :: nat

text \<open>
  A job. Time stamps are milliseconds since the epoch: the code stores
  \<^verbatim>\<open>toISOString()\<close> and reads it back with \<^verbatim>\<open>new Date(...).getTime()\<close>, which is the
  same number. \<open>resize\<close> is \<^verbatim>\<open>options.resize\<close>. The fixed Korean messages are written
  as English glosses.
\<close>

record job =
  job_id :: string
  sessionId :: string
  url :: string
  packageId :: string
  resize :: "nat option"
  status :: status
  progress :: rat
  stage :: string
  message :: string
  createdAt :: int
  updatedAt :: int
  packageTitle :: "string option"
  packageInfo :: "info option"
  items :: "item list"
  previews :: "preview list"
  job_zip :: "zip option"
  error :: "string option"
  startedAt :: "int option"
  completedAt :: "int option"

definition MSG_WAITING :: string where
  "MSG_WAITING = ''waiting for download''"

definition MSG_PREPARING :: string where
  "MSG_PREPARING = ''preparing the job''"

definition MSG_DONE :: string where
  "MSG_DONE = ''download completed''"

definition MSG_UNKNOWN :: string where
  "MSG_UNKNOWN = ''unknown error''"

text \<open>
  The module's four variables. \<open>jobs\<close> and \<open>sessionJobs\<close> are \<^verbatim>\<open>Map\<close>s: association
  lists in insertion order, read with \<open>map_of\<close>, written with \<open>AList.update\<close> (a new
  key goes to the end, an old one keeps its place) and \<open>AList.delete\<close>.
\<close>

record state =
  jobs :: "(string \<times> job) list"
  queue :: "string list"
  sessionJobs :: "(string \<times> string list) list"
  processingJob :: "string option"

definition init :: state where
  "init = \<lparr>jobs = [], queue = [], sessionJobs = [], processingJob = None\<rparr>"

definition MAX_STORED_JOBS_PER_SESSION :: nat where
  "MAX_STORED_JOBS_PER_SESSION = 15"

definition JOB_TTL_MS :: int where
  "JOB_TTL_MS = 1000 * 60 * 30"

subsection \<open>The public projection\<close>

text \<open>\<^verbatim>\<open>Buffer.prototype.toString('base64')\<close>: RFC 4648 with padding.\<close>

definition b64char :: "nat \<Rightarrow> char" where
  "b64char n = ''ABCDEFGHIJKLMNOPQRSTUVWXYZabcdefghijklmnopqrstuvwxyz0123456789+/'' ! n"

fun base64 :: "bytes \<Rightarrow> string" where
  "base64 [] = []"
| "base64 [a] =
     [b64char (unat a div 4), b64char (unat a mod 4 * 16), CHR ''='', CHR ''='']"
| "base64 [a, b] =
     [b64char (unat a div 4), b64char (unat a mod 4 * 16 + unat b div 16),
      b64char (unat b mod 16 * 4), CHR ''='']"
| "base64 (a # b # c # rest) =
     [b64char (unat a div 4), b64char (unat a mod 4 * 16 + unat b div 16),
      b64char (unat b mod 16 * 4 + unat c div 64), b64char (unat c mod 64)] @ base64 rest"

record publicItem =
  pi_idx :: string
  pi_sort :: nat
  pi_title :: string
  pi_ext :: string
  pi_size :: nat
  pi_sizeLabel :: string
  pi_mimeType :: "string option"
  pi_resized :: bool
  pi_dataUrl :: "string option"

record archive =
  ar_filename :: string
  ar_size :: nat
  ar_sizeLabel :: string

record publicJob =
  p_id :: string
  p_url :: string
  p_packageId :: string
  p_options :: "nat option"
  p_status :: status
  p_stage :: string
  p_progress :: rat
  p_message :: string
  p_error :: "string option"
  p_packageTitle :: "string option"
  p_packageInfo :: "info option"
  p_itemCount :: nat
  p_items :: "publicItem list"
  p_previews :: "preview list"
  p_archive :: "archive option"
  p_createdAt :: int
  p_updatedAt :: int
  p_startedAt :: "int option"
  p_completedAt :: "int option"

definition dataUrl :: "bytes option \<Rightarrow> string option \<Rightarrow> string option" where
  "dataUrl buf mime =
     (case buf of
        None \<Rightarrow> None
      | Some b \<Rightarrow> (if truthy mime then Some (''data:'' @ the mime @ '';base64,'' @ base64 b)
                  else None))"

definition summariseItem :: "item \<Rightarrow> publicItem" where
  "summariseItem x =
     \<lparr>pi_idx = it_idx x, pi_sort = it_sort x, pi_title = it_title x,
      pi_ext = it_ext x, pi_size = it_size x, pi_sizeLabel = formatBytes (it_size x),
      pi_mimeType = it_mimeType x, pi_resized = it_resized x,
      pi_dataUrl = dataUrl (it_buffer x) (it_mimeType x)\<rparr>"

definition summariseItems :: "item list \<Rightarrow> publicItem list" where
  "summariseItems its = map summariseItem its"

definition toPublicJob :: "job \<Rightarrow> publicJob" where
  "toPublicJob j =
     \<lparr>p_id = job_id j, p_url = url j, p_packageId = packageId j, p_options = resize j,
      p_status = status j, p_stage = stage j, p_progress = progress j,
      p_message = message j, p_error = error j, p_packageTitle = packageTitle j,
      p_packageInfo = packageInfo j, p_itemCount = length (items j),
      p_items = summariseItems (items j),
      p_previews = map (\<lambda>pv. \<lparr>pv_idx = pv_idx pv, pv_title = pv_title pv,
                                 pv_mimeType = pv_mimeType pv, pv_dataUrl = pv_dataUrl pv\<rparr>)
                     (previews j),
      p_archive = (case job_zip j of
                     None \<Rightarrow> None
                   | Some z \<Rightarrow> Some \<lparr>ar_filename = zip_filename z, ar_size = zip_size z,
                                      ar_sizeLabel = formatBytes (zip_size z)\<rparr>),
      p_createdAt = createdAt j, p_updatedAt = updatedAt j,
      p_startedAt = startedAt j, p_completedAt = completedAt j\<rparr>"

subsection \<open>Operations\<close>

text \<open>
  Every operation is one task of the event loop; it reads the clock once, as \<open>now\<close>.
  \<^verbatim>\<open>Number(value)\<close> is the platform's conversion: \<open>normalizeResizeOption\<close> takes its
  result, \<open>None\<close> when that is not a finite number. \<^verbatim>\<open>Math.round\<close> rounds a half up.
\<close>

definition normalizeResizeOption :: "rat option \<Rightarrow> nat option" where
  "normalizeResizeOption val =
     (case val of
        None \<Rightarrow> None
      | Some numeric \<Rightarrow>
          (if numeric \<le> 0 then None
           else (let rounded = \<lfloor>numeric + 1 / 2\<rfloor>;
                     clamped = min 512 (max 16 rounded)
                 in Some (nat clamped))))"

definition assertSessionId :: "string \<Rightarrow> error + string" where
  "assertSessionId sid = (if sid = [] \<or> trim sid = [] then Inl SessionRequired else Inr (trim sid))"

definition getSessionOrder :: "string \<Rightarrow> state \<Rightarrow> string list \<times> state" where
  "getSessionOrder sid s =
     (case map_of (sessionJobs s) sid of
        Some existing \<Rightarrow> (existing, s)
      | None \<Rightarrow> ([], s\<lparr>sessionJobs := AList.update sid [] (sessionJobs s)\<rparr>))"

definition removeJob :: "string \<Rightarrow> state \<Rightarrow> bool \<times> state" where
  "removeJob jobId s =
     (case map_of (jobs s) jobId of
        None \<Rightarrow> (False, s)
      | Some job \<Rightarrow>
          (if status job = Processing then (False, s)
           else (let s1 = s\<lparr>jobs := AList.delete jobId (jobs s)\<rparr>;
                     s2 = (case map_of (sessionJobs s1) (sessionId job) of
                             None \<Rightarrow> s1
                           | Some order \<Rightarrow>
                               (let order' = remove1 jobId order
                                in if order' = []
                                   then s1\<lparr>sessionJobs := AList.delete (sessionId job) (sessionJobs s1)\<rparr>
                                   else s1\<lparr>sessionJobs :=
                                             AList.update (sessionId job) order' (sessionJobs s1)\<rparr>))
                 in (True, s2\<lparr>queue := removeAll jobId (queue s2)\<rparr>))))"

text \<open>
  The loop of \<^verbatim>\<open>cleanupExpiredJobs\<close> visits the entries of \<^verbatim>\<open>jobs\<close> in order; deleting
  the entry being visited does not disturb the iteration, so it runs over the entries
  present at the start. \<^verbatim>\<open>updatedAt\<close> is always set and always a date, so the
  \<^verbatim>\<open>createdAt\<close> alternative and the \<^verbatim>\<open>NaN\<close> guard never apply.
\<close>

fun cleanup_loop :: "int \<Rightarrow> (string \<times> job) list \<Rightarrow> state \<Rightarrow> state" where
  "cleanup_loop now [] s = s"
| "cleanup_loop now ((jobId, job) # rest) s =
     cleanup_loop now rest
       (if status job = Processing \<or> status job = Queued then s
        else if now - updatedAt job > JOB_TTL_MS then snd (removeJob jobId s)
        else s)"

definition cleanupExpiredJobs :: "int \<Rightarrow> state \<Rightarrow> state" where
  "cleanupExpiredJobs now s = cleanup_loop now (jobs s) s"

text \<open>
  \<^verbatim>\<open>trimSessionJobs\<close> holds the session's array while it loops. The model reads the
  array from the state in every round: \<^verbatim>\<open>removeJob\<close> takes the array out of
  \<^verbatim>\<open>sessionJobs\<close> only once it is empty, which ends the loop either way.
\<close>

function trimSessionJobs :: "string \<Rightarrow> state \<Rightarrow> state" where
  "trimSessionJobs sid s =
     (case map_of (sessionJobs s) sid of
        None \<Rightarrow> s
      | Some order \<Rightarrow>
          (if length order > MAX_STORED_JOBS_PER_SESSION
           then (let oldestId = hd order
                 in if fst (removeJob oldestId s)
                    then trimSessionJobs sid (snd (removeJob oldestId s))
                    else s)
           else s))"
  by pat_completeness auto
termination
proof (relation "measure (\<lambda>(sid, s). length (jobs s))")
  show "wf (measure (\<lambda>(sid, s). length (jobs s)))" by simp
next
  fix sid :: string and s :: state and order :: "string list" and oldestId :: string
  assume r: "fst (removeJob oldestId s)"
  then obtain job where j: "map_of (jobs s) oldestId = Some job"
    by (auto simp: removeJob_def split: option.splits)
  from r j have "jobs (snd (removeJob oldestId s)) = AList.delete oldestId (jobs s)"
    by (auto simp: removeJob_def Let_def split: option.splits if_splits)
  moreover from j have "(oldestId, job) \<in> set (jobs s)"
    by (rule map_of_SomeD)
  then have "length (AList.delete oldestId (jobs s)) < length (jobs s)"
    unfolding AList.delete_eq by (rule length_filter_less) simp
  ultimately show "((sid, snd (removeJob oldestId s)), (sid, s))
      \<in> measure (\<lambda>(sid, s). length (jobs s))"
    by simp
qed

declare trimSessionJobs.simps [simp del]

text \<open>
  \<^verbatim>\<open>runJob\<close> is an \<^verbatim>\<open>async\<close> function: a call runs its body up to the first
  \<^verbatim>\<open>await\<close> at once, inside the caller's task. That part is \<open>runJob_start\<close>. The
  rest runs in later tasks, as the downloader calls back (\<open>onProgress\<close>) and returns
  (\<open>runJob_success\<close>) or throws (\<open>runJob_failure\<close>, with the error's message when it is a
  string); the \<^verbatim>\<open>finally\<close> handler of \<^verbatim>\<open>processQueue\<close> follows in the same task.
\<close>

definition runJob_start :: "int \<Rightarrow> job \<Rightarrow> job" where
  "runJob_start now job =
     job\<lparr>status := Processing, stage := ''initializing'', progress := 1 / 100,
         message := MSG_PREPARING, startedAt := Some now, updatedAt := now\<rparr>"

definition onProgress :: "int \<Rightarrow> string \<Rightarrow> rat \<Rightarrow> string \<Rightarrow> job \<Rightarrow> job" where
  "onProgress now stg p msg job =
     job\<lparr>stage := stg, progress := min 1 (max 0 p), message := msg, updatedAt := now\<rparr>"

definition runJob_success ::
    "int \<Rightarrow> info option \<Rightarrow> item list \<Rightarrow> preview list \<Rightarrow> zip \<Rightarrow> job \<Rightarrow> job" where
  "runJob_success now pinfo its pvs z job =
     job\<lparr>packageTitle := (case pinfo of None \<Rightarrow> None | Some i \<Rightarrow> info_title i),
         packageInfo := pinfo, items := its, previews := pvs, job_zip := Some z,
         status := Completed, stage := ''completed'', progress := 1,
         message := MSG_DONE, completedAt := Some now, updatedAt := now\<rparr>"

definition runJob_failure :: "int \<Rightarrow> string option \<Rightarrow> job \<Rightarrow> job" where
  "runJob_failure now err job =
     (let e = (case err of Some m \<Rightarrow> m | None \<Rightarrow> MSG_UNKNOWN)
      in job\<lparr>status := Failed, stage := ''failed'', error := Some e, message := e,
             updatedAt := now\<rparr>)"

definition processQueue :: "int \<Rightarrow> state \<Rightarrow> state" where
  "processQueue now s =
     (if truthy (processingJob s) then s
      else (case queue s of
              [] \<Rightarrow> s
            | nextJobId # rest \<Rightarrow>
                (let s1 = s\<lparr>queue := rest\<rparr>
                 in case map_of (jobs s1) nextJobId of
                      None \<Rightarrow> s1
                    | Some job \<Rightarrow>
                        (if status job \<noteq> Queued then s1
                         else s1\<lparr>processingJob := Some (job_id job),
                                 jobs := AList.update nextJobId (runJob_start now job) (jobs s1)\<rparr>))))"

text \<open>
  The running job is the object \<^verbatim>\<open>runJob\<close> holds; the model finds it in \<open>jobs\<close> under
  \<open>processingJob\<close>. \<open>worker_update\<close> is a callback of the downloader, \<open>worker_finish\<close>
  the end of \<^verbatim>\<open>runJob\<close> together with the \<^verbatim>\<open>finally\<close> handler that clears the marker.
\<close>

definition worker_update :: "(job \<Rightarrow> job) \<Rightarrow> state \<Rightarrow> state" where
  "worker_update f s =
     (case processingJob s of
        None \<Rightarrow> s
      | Some k \<Rightarrow>
          (case map_of (jobs s) k of
             None \<Rightarrow> s
           | Some job \<Rightarrow> s\<lparr>jobs := AList.update k (f job) (jobs s)\<rparr>))"

definition worker_finish :: "(job \<Rightarrow> job) \<Rightarrow> state \<Rightarrow> state" where
  "worker_finish f s = (worker_update f s)\<lparr>processingJob := None\<rparr>"

text \<open>The object literal of \<^verbatim>\<open>createJob\<close> (lines 124 to 144).\<close>

definition newJob :: "string \<Rightarrow> string \<Rightarrow> string \<Rightarrow> string \<Rightarrow> nat option \<Rightarrow> int \<Rightarrow> job" where
  "newJob newId validSessionId trimmedUrl pid resizeOption now =
     \<lparr>job_id = newId, sessionId = validSessionId, url = trimmedUrl, packageId = pid,
      resize = resizeOption, status = Queued, progress = 0, stage = ''queued'',
      message = MSG_WAITING, createdAt = now, updatedAt = now, packageTitle = None,
      packageInfo = None, items = [], previews = [], job_zip = None, error = None,
      startedAt = None, completedAt = None\<rparr>"

text \<open>
  \<^verbatim>\<open>createJob\<close> returns the projection of the object it made, as that object is
  after \<^verbatim>\<open>processQueue()\<close> has returned: the entry of \<open>jobs\<close> under its id, or the
  object as made if it is no longer in \<open>jobs\<close>.
\<close>

definition createJob ::
    "(string \<Rightarrow> URL option) \<Rightarrow> int \<Rightarrow> string \<Rightarrow> string \<Rightarrow> string \<Rightarrow> rat option \<Rightarrow> state
      \<Rightarrow> (error + publicJob) \<times> state" where
  "createJob parseURL now newId u sid rsz s =
     (case assertSessionId sid of
        Inl e \<Rightarrow> (Inl e, s)
      | Inr validSessionId \<Rightarrow>
          (let s1 = cleanupExpiredJobs now s;
               trimmedUrl = trim u;
               pid = extractPackageId parseURL trimmedUrl
           in if \<not> truthy pid then (Inl InvalidUrl, s1)
              else (let job = newJob newId validSessionId trimmedUrl (the pid)
                                (normalizeResizeOption rsz) now;
                        s2 = s1\<lparr>jobs := AList.update (job_id job) job (jobs s1)\<rparr>;
                        s3 = (case getSessionOrder validSessionId s2 of
                                (order, s') \<Rightarrow>
                                  s'\<lparr>sessionJobs :=
                                       AList.update validSessionId (order @ [job_id job])
                                         (sessionJobs s')\<rparr>);
                        s4 = trimSessionJobs validSessionId s3;
                        s5 = s4\<lparr>queue := queue s4 @ [job_id job]\<rparr>;
                        s6 = processQueue now s5
                    in (Inr (toPublicJob (case map_of (jobs s6) (job_id job) of
                                            Some live \<Rightarrow> live
                                          | None \<Rightarrow> job)), s6))))"

definition listJobs :: "int \<Rightarrow> string \<Rightarrow> state \<Rightarrow> (error + publicJob list) \<times> state" where
  "listJobs now sid s =
     (case assertSessionId sid of
        Inl e \<Rightarrow> (Inl e, s)
      | Inr validSessionId \<Rightarrow>
          (let s1 = cleanupExpiredJobs now s
           in case map_of (sessionJobs s1) validSessionId of
                None \<Rightarrow> (Inr [], s1)
              | Some order \<Rightarrow>
                  (if order = [] then (Inr [], s1)
                   else (let order' = filter (\<lambda>jobId. map_of (jobs s1) jobId \<noteq> None) order;
                             visibleJobs = map (\<lambda>jobId. toPublicJob (the (map_of (jobs s1) jobId)))
                                             order'
                         in (Inr visibleJobs,
                             if order' = []
                             then s1\<lparr>sessionJobs := AList.delete validSessionId (sessionJobs s1)\<rparr>
                             else s1\<lparr>sessionJobs :=
                                       AList.update validSessionId order' (sessionJobs s1)\<rparr>)))))"

definition getJob ::
    "int \<Rightarrow> string \<Rightarrow> string \<Rightarrow> state \<Rightarrow> (error + publicJob option) \<times> state" where
  "getJob now sid jobId s =
     (case assertSessionId sid of
        Inl e \<Rightarrow> (Inl e, s)
      | Inr validSessionId \<Rightarrow>
          (let s1 = cleanupExpiredJobs now s
           in case map_of (jobs s1) jobId of
                None \<Rightarrow> (Inr None, s1)
              | Some job \<Rightarrow>
                  (if sessionId job \<noteq> validSessionId then (Inr None, s1)
                   else (Inr (Some (toPublicJob job)), s1))))"

definition getJobDownloadData ::
    "int \<Rightarrow> string \<Rightarrow> string \<Rightarrow> state \<Rightarrow> (error + zip) \<times> state" where
  "getJobDownloadData now sid jobId s =
     (case assertSessionId sid of
        Inl e \<Rightarrow> (Inl e, s)
      | Inr validSessionId \<Rightarrow>
          (let s1 = cleanupExpiredJobs now s
           in case map_of (jobs s1) jobId of
                None \<Rightarrow> (Inl JobNotFound, s1)
              | Some job \<Rightarrow>
                  (if sessionId job \<noteq> validSessionId then (Inl JobNotFound, s1)
                   else if status job \<noteq> Completed \<or> job_zip job = None then (Inl NotReady, s1)
                   else (Inr (the (job_zip job)), s1))))"

subsection \<open>The service as a transition system\<close>

text \<open>
  The events are the four exported operations, the worker's \<^verbatim>\<open>setImmediate\<close> call of
  \<^verbatim>\<open>processQueue\<close>, and what the downloader does to the running job. \<^verbatim>\<open>nanoid()\<close> is
  taken as an argument of \<open>CreateJob\<close>; \<open>event_ok\<close> states what the library promises of
  it: a non-empty id that no job of the registry has.
\<close>

datatype event =
    CreateJob int string string string "rat option"
  | ListJobs int string
  | GetJob int string string
  | GetJobDownloadData int string string
  | ProcessQueue int
  | Progress int string rat string
  | Succeed int "info option" "item list" "preview list" zip
  | Fail int "string option"

fun step :: "(string \<Rightarrow> URL option) \<Rightarrow> event \<Rightarrow> state \<Rightarrow> state" where
  "step parseURL (CreateJob now newId u sid rsz) s = snd (createJob parseURL now newId u sid rsz s)"
| "step parseURL (ListJobs now sid) s = snd (listJobs now sid s)"
| "step parseURL (GetJob now sid jobId) s = snd (getJob now sid jobId s)"
| "step parseURL (GetJobDownloadData now sid jobId) s = snd (getJobDownloadData now sid jobId s)"
| "step parseURL (ProcessQueue now) s = processQueue now s"
| "step parseURL (Progress now stg p msg) s = worker_update (onProgress now stg p msg) s"
| "step parseURL (Succeed now pinfo its pvs z) s = worker_finish (runJob_success now pinfo its pvs z) s"
| "step parseURL (Fail now err) s = worker_finish (runJob_failure now err) s"

fun event_ok :: "state \<Rightarrow> event \<Rightarrow> bool" where
  "event_ok s (CreateJob now newId u sid rsz) = (newId \<noteq> [] \<and> map_of (jobs s) newId = None)"
| "event_ok s e = True"

inductive reachable :: "(string \<Rightarrow> URL option) \<Rightarrow> state \<Rightarrow> bool"
  for parseURL :: "string \<Rightarrow> URL option" where
  reachable_init: "reachable parseURL init"
| reachable_step: "reachable parseURL s \<Longrightarrow> event_ok s e \<Longrightarrow> reachable parseURL (step parseURL e s)"

subsection \<open>The invariant\<close>

text \<open>
  What every reachable state satisfies. \<open>keys_ok\<close>: the keys of \<open>jobs\<close> are distinct,
  non-empty, and each is the \<open>id\<close> of its job. \<open>marker_ok\<close>: the jobs with status
  \<open>Processing\<close> are exactly the one \<open>processingJob\<close> names. \<open>sessions_ok\<close>: the lists of
  \<open>sessionJobs\<close> have no duplicates and hold exactly the ids of the session's jobs.
\<close>

definition keys_ok :: "state \<Rightarrow> bool" where
  "keys_ok s = (distinct (map fst (jobs s)) \<and>
     (\<forall>k j. map_of (jobs s) k = Some j \<longrightarrow> job_id j = k \<and> k \<noteq> []))"

definition marker_ok :: "state \<Rightarrow> bool" where
  "marker_ok s = ((\<forall>k j. map_of (jobs s) k = Some j \<longrightarrow> status j = Processing \<longrightarrow> processingJob s = Some k) \<and>
     (\<forall>k. processingJob s = Some k \<longrightarrow> (\<exists>j. map_of (jobs s) k = Some j \<and> status j = Processing)))"

definition sessions_ok :: "state \<Rightarrow> bool" where
  "sessions_ok s = ((\<forall>sid order. map_of (sessionJobs s) sid = Some order \<longrightarrow>
        distinct order \<and> (\<forall>k \<in> set order. \<exists>j. map_of (jobs s) k = Some j \<and> sessionId j = sid)) \<and>
     (\<forall>k j. map_of (jobs s) k = Some j \<longrightarrow>
        (\<exists>order. map_of (sessionJobs s) (sessionId j) = Some order \<and> k \<in> set order)))"

definition inv :: "state \<Rightarrow> bool" where
  "inv s = (keys_ok s \<and> marker_ok s \<and> sessions_ok s)"

subsection \<open>Runs, and the age test of the TTL cleanup\<close>

text \<open>
  \<open>run\<close> applies a list of events in order; \<open>events_ok\<close> checks \<open>event_ok\<close> before each
  of them. \<open>expired now job\<close> is the condition under which \<^verbatim>\<open>cleanupExpiredJobs\<close>
  calls \<^verbatim>\<open>removeJob\<close>: a terminal status and an \<^verbatim>\<open>updatedAt\<close> more than
  \<open>JOB_TTL_MS\<close> before \<open>now\<close>.
\<close>

fun run :: "(string \<Rightarrow> URL option) \<Rightarrow> event list \<Rightarrow> state \<Rightarrow> state" where
  "run parseURL [] s = s"
| "run parseURL (e # es) s = run parseURL es (step parseURL e s)"

fun events_ok :: "(string \<Rightarrow> URL option) \<Rightarrow> event list \<Rightarrow> state \<Rightarrow> bool" where
  "events_ok parseURL [] s = True"
| "events_ok parseURL (e # es) s = (event_ok s e \<and> events_ok parseURL es (step parseURL e s))"

definition expired :: "int \<Rightarrow> job \<Rightarrow> bool" where
  "expired now job =
     ((status job = Completed \<or> status job = Failed) \<and> now - updatedAt job > JOB_TTL_MS)"

subsection \<open>The fallback of extractPackageId, in words\<close>

text \<open>
  \<open>digit_runs s\<close> lists the maximal runs of digits of \<open>s\<close> from the left, each with the
  character that follows it. A run is \<open>bare\<close> when it has three or more digits and no
  letter follows it. \<open>last_bare_run\<close> is the fallback as the specification words it: the
  last bare run. \<open>first_bare_run\<close> is the first bare run. A run is \<open>glued\<close> when it has four
  or more digits and a letter follows it, and \<open>no_glued_before s\<close> says that no glued run
  stands to the left of the first bare run of \<open>s\<close> (in all of \<open>s\<close>, when it has no bare
  run). \<open>first_match\<close> is the leftmost match of the regular expression, run by run.
\<close>

function digit_runs :: "string \<Rightarrow> (string \<times> char option) list" where
  "digit_runs [] = []"
| "digit_runs (c # cs) =
     (if isDigit c
      then (takeWhile isDigit (c # cs),
            case dropWhile isDigit cs of [] \<Rightarrow> None | d # _ \<Rightarrow> Some d)
           # digit_runs (dropWhile isDigit cs)
      else digit_runs cs)"
  by pat_completeness auto
termination
  by (relation "measure length") (auto simp: less_Suc_eq_le length_dropWhile_le)

definition before_letter :: "char option \<Rightarrow> bool" where
  "before_letter nx = (case nx of None \<Rightarrow> False | Some d \<Rightarrow> isLetter d)"

definition last_bare_run :: "string \<Rightarrow> string option" where
  "last_bare_run s =
     (case filter (\<lambda>(r, nx). 3 \<le> length r \<and> \<not> before_letter nx) (digit_runs s) of
        [] \<Rightarrow> None
      | x # xs \<Rightarrow> Some (fst (last (x # xs))))"

definition bare :: "string \<times> char option \<Rightarrow> bool" where
  "bare x = (3 \<le> length (fst x) \<and> \<not> before_letter (snd x))"

definition first_bare_run :: "string \<Rightarrow> string option" where
  "first_bare_run s =
     (case filter bare (digit_runs s) of
        [] \<Rightarrow> None
      | x # xs \<Rightarrow> Some (fst x))"

definition glued :: "string \<times> char option \<Rightarrow> bool" where
  "glued x = (4 \<le> length (fst x) \<and> before_letter (snd x))"

definition no_glued_before :: "string \<Rightarrow> bool" where
  "no_glued_before s =
     list_all (\<lambda>x. \<not> glued x) (takeWhile (\<lambda>x. \<not> bare x) (digit_runs s))"

definition first_match :: "string \<Rightarrow> string option" where
  "first_match s =
     (case filter (\<lambda>(r, nx). 3 \<le> length r \<and> (before_letter nx \<longrightarrow> 4 \<le> length r))
             (digit_runs s) of
        [] \<Rightarrow> None
      | (r, nx) # xs \<Rightarrow> Some (if before_letter nx then butlast r else r))"

subsection \<open>The unit of formatBytes, in words\<close>

text \<open>
  The index of the unit \<^verbatim>\<open>formatBytes\<close> ends with: \<open>B\<close> below 1024 bytes, \<open>KB\<close> below
  \<open>1024^2\<close>, \<open>MB\<close> below \<open>1024^3\<close>, \<open>GB\<close> from there on.
\<close>

definition unitOf :: "nat \<Rightarrow> nat" where
  "unitOf n = (if n < 1024 then 0 else if n < 1024 ^ 2 then 1 else if n < 1024 ^ 3 then 2 else 3)"

subsection \<open>Concrete runs\<close>

text \<open>
  The states the closed theorems below evaluate. \<open>rejectURL\<close> is a parser that rejects
  every string; the address \<^verbatim>\<open>idx=123\<close> is matched by the first regular expression of
  \<^verbatim>\<open>extractPackageId\<close>, so the parser is not consulted. \<open>submit n\<close> is a request of
  session \<^verbatim>\<open>sess\<close> at time 0 that draws the id \<open>n\<close>. \<open>demo1\<close> is the service after one
  request, \<open>demoFailed\<close> after that job has failed at time 5, \<open>demo15\<close> after fifteen
  requests, \<open>demoDone\<close> after sixteen requests and the failure of the first job, and
  \<open>demoCompleted\<close> after one request whose job has completed at time 5 with the archive
  \<open>demoZip\<close>.
\<close>

definition rejectURL :: "string \<Rightarrow> URL option" where
  "rejectURL u = None"

definition submit :: "nat \<Rightarrow> event" where
  "submit n = CreateJob 0 (showNat n) ''idx=123'' ''sess'' None"

definition demo1 :: state where
  "demo1 = run rejectURL [submit 1] init"

definition demoFailed :: state where
  "demoFailed = run rejectURL [submit 1, Fail 5 None] init"

definition demo15 :: state where
  "demo15 = run rejectURL (map submit [1 ..< 16]) init"


definition demoZip :: zip where
  "demoZip = \<lparr>zip_buffer = [80, 75], zip_filename = ''untitled_123.zip'', zip_size = 2\<rparr>"

definition demoCompleted :: state where
  "demoCompleted = run rejectURL [submit 1, Succeed 5 None [] [] demoZip] init"

text \<open>
  An item of three bytes (the characters \<^verbatim>\<open>Man\<close>) with a MIME type, and a job that holds
  it, for the projection.
\<close>

definition demoItem :: item where
  "demoItem = \<lparr>it_idx = ''7'', it_packageIdx = ''123'', it_title = ''smile'', it_sort = 1,
                it_ext = ''png'', it_path = ''abc'', it_buffer = Some [77, 97, 110],
                it_mimeType = Some ''image/png'', it_size = 3, it_resized = False\<rparr>"

definition demoJob :: job where
  "demoJob = (newJob ''1'' ''sess'' ''idx=123'' ''123'' None 0)
               \<lparr>items := [demoItem], job_zip := Some demoZip\<rparr>"

section \<open>Lemmas\<close>

subsection \<open>removeJob and the invariant\<close>

lemma removeJob_fst:
  "fst (removeJob k s) \<longleftrightarrow> (\<exists>job. map_of (jobs s) k = Some job \<and> status job \<noteq> Processing)"
  by (auto simp: removeJob_def Let_def split: option.splits)

lemma removeJob_not:
  "\<not> fst (removeJob k s) \<Longrightarrow> snd (removeJob k s) = s"
  by (auto simp: removeJob_def Let_def split: option.splits)

lemma removeJob_jobs:
  "jobs (snd (removeJob k s)) = (if fst (removeJob k s) then AList.delete k (jobs s) else jobs s)"
  by (auto simp: removeJob_def Let_def split: option.splits)

lemma removeJob_queue:
  "queue (snd (removeJob k s)) = (if fst (removeJob k s) then removeAll k (queue s) else queue s)"
  by (auto simp: removeJob_def Let_def split: option.splits)

lemma removeJob_processingJob:
  "processingJob (snd (removeJob k s)) = processingJob s"
  by (auto simp: removeJob_def Let_def split: option.splits)

lemma removeJob_sessionJobs:
  "map_of (sessionJobs (snd (removeJob k s))) sid =
     (if fst (removeJob k s) \<and> sid = sessionId (the (map_of (jobs s) k))
      then (case map_of (sessionJobs s) sid of
              None \<Rightarrow> None
            | Some order \<Rightarrow> if remove1 k order = [] then None else Some (remove1 k order))
      else map_of (sessionJobs s) sid)"
  by (auto simp: removeJob_def Let_def update_conv' delete_conv' split: option.splits)

lemma removeJob_map_of:
  "map_of (jobs (snd (removeJob k s))) k' =
     (if fst (removeJob k s) \<and> k' = k then None else map_of (jobs s) k')"
  by (simp add: removeJob_jobs delete_conv')

lemma removeJob_distinct:
  "distinct (map fst (jobs s)) \<Longrightarrow> distinct (map fst (jobs (snd (removeJob k s))))"
  by (simp add: removeJob_jobs distinct_delete)

lemma keys_ok_removeJob: "keys_ok s \<Longrightarrow> keys_ok (snd (removeJob k s))"
  unfolding keys_ok_def
  by (intro conjI allI impI removeJob_distinct) (simp_all add: removeJob_map_of split: if_splits)

lemma marker_ok_removeJob:
  assumes "marker_ok s"
  shows "marker_ok (snd (removeJob k s))"
proof (cases "fst (removeJob k s)")
  case False
  then show ?thesis using assms by (simp add: removeJob_not)
next
  case True
  then obtain job where job: "map_of (jobs s) k = Some job" "status job \<noteq> Processing"
    unfolding removeJob_fst by blast
  have J: "\<And>k'. map_of (jobs (snd (removeJob k s))) k' = (if k' = k then None else map_of (jobs s) k')"
    using True by (simp add: removeJob_map_of)
  show ?thesis
    unfolding marker_ok_def removeJob_processingJob J
    using assms job unfolding marker_ok_def by (metis option.inject option.distinct(1))
qed

lemma sessions_okD1:
  "sessions_ok s \<Longrightarrow> map_of (sessionJobs s) sid = Some order \<Longrightarrow> distinct order"
  unfolding sessions_ok_def by blast

lemma sessions_okD2:
  "sessions_ok s \<Longrightarrow> map_of (sessionJobs s) sid = Some order \<Longrightarrow> k \<in> set order
     \<Longrightarrow> \<exists>j. map_of (jobs s) k = Some j \<and> sessionId j = sid"
  unfolding sessions_ok_def by blast

lemma sessions_okD3:
  "sessions_ok s \<Longrightarrow> map_of (jobs s) k = Some j
     \<Longrightarrow> \<exists>order. map_of (sessionJobs s) (sessionId j) = Some order \<and> k \<in> set order"
  unfolding sessions_ok_def by blast

lemma sessions_ok_removeJob:
  assumes "sessions_ok s"
  shows "sessions_ok (snd (removeJob k s))"
proof (cases "fst (removeJob k s)")
  case False
  then show ?thesis using assms by (simp add: removeJob_not)
next
  case True
  then obtain job where job: "map_of (jobs s) k = Some job" "status job \<noteq> Processing"
    unfolding removeJob_fst by blast
  let ?s = "snd (removeJob k s)"
  have J: "\<And>k'. map_of (jobs ?s) k' = (if k' = k then None else map_of (jobs s) k')"
    using True by (simp add: removeJob_map_of)
  have S: "\<And>sid. map_of (sessionJobs ?s) sid =
     (if sid = sessionId job
      then (case map_of (sessionJobs s) sid of
              None \<Rightarrow> None
            | Some order \<Rightarrow> if remove1 k order = [] then None else Some (remove1 k order))
      else map_of (sessionJobs s) sid)"
    using True job by (simp add: removeJob_sessionJobs)
  have a: "distinct order \<and> (\<forall>k' \<in> set order. \<exists>j. map_of (jobs ?s) k' = Some j \<and> sessionId j = sid)"
    if h: "map_of (sessionJobs ?s) sid = Some order" for sid order
  proof (cases "sid = sessionId job")
    case True
    with h obtain o0 where o0: "map_of (sessionJobs s) sid = Some o0" "order = remove1 k o0"
      unfolding S by (cases "map_of (sessionJobs s) sid") (simp_all split: if_splits)
    have d: "distinct o0" using assms o0(1) by (rule sessions_okD1)
    have "\<exists>j. map_of (jobs ?s) k' = Some j \<and> sessionId j = sid" if "k' \<in> set order" for k'
    proof -
      from that d o0 have "k' \<in> set o0" "k' \<noteq> k" by auto
      with sessions_okD2[OF assms o0(1)] show ?thesis by (simp add: J)
    qed
    then show ?thesis using d o0 by simp
  next
    case False
    with h have o0: "map_of (sessionJobs s) sid = Some order" by (simp add: S)
    have d: "distinct order" using assms o0 by (rule sessions_okD1)
    have "\<exists>j. map_of (jobs ?s) k' = Some j \<and> sessionId j = sid" if "k' \<in> set order" for k'
    proof -
      from sessions_okD2[OF assms o0 that] obtain j where j: "map_of (jobs s) k' = Some j" "sessionId j = sid"
        by blast
      with job False have "k' \<noteq> k" by auto
      with j show ?thesis by (simp add: J)
    qed
    then show ?thesis using d by simp
  qed
  have b: "\<exists>order. map_of (sessionJobs ?s) (sessionId j) = Some order \<and> k' \<in> set order"
    if h: "map_of (jobs ?s) k' = Some j" for k' j
  proof -
    from h have kk: "k' \<noteq> k" and j: "map_of (jobs s) k' = Some j"
      by (simp_all add: J split: if_splits)
    from sessions_okD3[OF assms j] obtain o0
      where o0: "map_of (sessionJobs s) (sessionId j) = Some o0" "k' \<in> set o0"
      by blast
    show ?thesis
    proof (cases "sessionId j = sessionId job")
      case True
      have m: "k' \<in> set (remove1 k o0)" using o0 kk by simp
      then have "remove1 k o0 \<noteq> []" by auto
      with m show ?thesis using o0 True by (simp add: S)
    next
      case False
      then show ?thesis using o0 by (simp add: S)
    qed
  qed
  show ?thesis unfolding sessions_ok_def using a b by blast
qed

lemma inv_removeJob: "inv s \<Longrightarrow> inv (snd (removeJob k s))"
  by (simp add: inv_def keys_ok_removeJob marker_ok_removeJob sessions_ok_removeJob)

lemma inv_cleanup_loop: "inv s \<Longrightarrow> inv (cleanup_loop now xs s)"
proof (induction xs arbitrary: s)
  case Nil
  then show ?case by simp
next
  case (Cons x xs)
  obtain jobId job where x: "x = (jobId, job)" by (cases x)
  show ?case unfolding x cleanup_loop.simps
    by (rule Cons.IH) (simp add: Cons.prems inv_removeJob)
qed

lemma inv_cleanup: "inv s \<Longrightarrow> inv (cleanupExpiredJobs now s)"
  by (simp add: cleanupExpiredJobs_def inv_cleanup_loop)

lemma inv_trim: "inv s \<Longrightarrow> inv (trimSessionJobs sid s)"
proof (induction sid s rule: trimSessionJobs.induct)
  case (1 sid s)
  show ?case
  proof (cases "map_of (sessionJobs s) sid")
    case None
    then show ?thesis using "1.prems" by (subst trimSessionJobs.simps) simp
  next
    case (Some order)
    show ?thesis
    proof (cases "length order > MAX_STORED_JOBS_PER_SESSION \<and> fst (removeJob (hd order) s)")
      case True
      then have "inv (trimSessionJobs sid (snd (removeJob (hd order) s)))"
        using "1.IH"[OF Some _ refl] "1.prems" by (simp add: inv_removeJob)
      then show ?thesis using Some True by (subst trimSessionJobs.simps) (simp add: Let_def)
    next
      case False
      then show ?thesis using Some "1.prems" by (subst trimSessionJobs.simps) (auto simp: Let_def)
    qed
  qed
qed

subsection \<open>Changing a job in place\<close>

lemma keys_ok_update:
  assumes "keys_ok s" "map_of (jobs s) k = Some job" "job_id job' = job_id job"
    "jobs s' = AList.update k job' (jobs s)"
  shows "keys_ok s'"
proof -
  have d: "distinct (map fst (jobs s'))"
    using assms(1,4) by (simp add: keys_ok_def distinct_update)
  have "job_id j = k' \<and> k' \<noteq> []" if "map_of (jobs s') k' = Some j" for k' j
    using that assms unfolding keys_ok_def
    by (cases "k' = k") (simp_all add: update_conv')
  with d show ?thesis unfolding keys_ok_def by blast
qed

lemma sessions_ok_update:
  assumes "sessions_ok s" "map_of (jobs s) k = Some job" "sessionId job' = sessionId job"
    "jobs s' = AList.update k job' (jobs s)" "sessionJobs s' = sessionJobs s"
  shows "sessions_ok s'"
proof -
  have J: "\<And>k'. map_of (jobs s') k' = (if k' = k then Some job' else map_of (jobs s) k')"
    using assms(4) by (simp add: update_conv')
  have a: "distinct order \<and> (\<forall>k' \<in> set order. \<exists>j. map_of (jobs s') k' = Some j \<and> sessionId j = sid)"
    if h: "map_of (sessionJobs s') sid = Some order" for sid order
  proof -
    from h have o: "map_of (sessionJobs s) sid = Some order" by (simp add: assms(5))
    have "\<exists>j. map_of (jobs s') k' = Some j \<and> sessionId j = sid" if "k' \<in> set order" for k'
      using sessions_okD2[OF assms(1) o that] assms(2,3) by (auto simp: J)
    then show ?thesis using sessions_okD1[OF assms(1) o] by blast
  qed
  have b: "\<exists>order. map_of (sessionJobs s') (sessionId j) = Some order \<and> k' \<in> set order"
    if h: "map_of (jobs s') k' = Some j" for k' j
  proof (cases "k' = k")
    case True
    with h have "j = job'" by (simp add: J)
    with sessions_okD3[OF assms(1,2)] True show ?thesis by (simp add: assms(3,5))
  next
    case False
    with h have "map_of (jobs s) k' = Some j" by (simp add: J)
    from sessions_okD3[OF assms(1) this] show ?thesis by (simp add: assms(5))
  qed
  show ?thesis unfolding sessions_ok_def using a b by blast
qed

lemma marker_ok_same_status:
  assumes "marker_ok s" "map_of (jobs s) k = Some job" "status job' = status job"
    "jobs s' = AList.update k job' (jobs s)" "processingJob s' = processingJob s"
  shows "marker_ok s'"
proof -
  have J: "\<And>k'. map_of (jobs s') k' = (if k' = k then Some job' else map_of (jobs s) k')"
    using assms(4) by (simp add: update_conv')
  show ?thesis
    unfolding marker_ok_def J assms(5)
    using assms(1,2,3) unfolding marker_ok_def by (metis option.inject)
qed

lemma marker_ok_start:
  assumes "marker_ok s" "processingJob s = None" "map_of (jobs s) k = Some job"
    "status job' = Processing"
    "jobs s' = AList.update k job' (jobs s)" "processingJob s' = Some k"
  shows "marker_ok s'"
proof -
  have J: "\<And>k'. map_of (jobs s') k' = (if k' = k then Some job' else map_of (jobs s) k')"
    using assms(5) by (simp add: update_conv')
  have none: "\<And>k' j. map_of (jobs s) k' = Some j \<Longrightarrow> status j \<noteq> Processing"
    using assms(1,2) unfolding marker_ok_def by (metis option.distinct(1))
  show ?thesis
    unfolding marker_ok_def J assms(6)
    using none assms(4) by (metis option.inject)
qed

lemma marker_ok_finish:
  assumes "marker_ok s" "processingJob s = Some k" "map_of (jobs s) k = Some job"
    "status job' \<noteq> Processing"
    "jobs s' = AList.update k job' (jobs s)" "processingJob s' = None"
  shows "marker_ok s'"
proof -
  have J: "\<And>k'. map_of (jobs s') k' = (if k' = k then Some job' else map_of (jobs s) k')"
    using assms(5) by (simp add: update_conv')
  have only: "\<And>k' j. map_of (jobs s) k' = Some j \<Longrightarrow> status j = Processing \<Longrightarrow> k' = k"
    using assms(1,2) unfolding marker_ok_def by (metis option.inject)
  show ?thesis
    unfolding marker_ok_def J assms(6)
    using only assms(4) by (metis option.inject option.distinct(1))
qed

lemma marker_none:
  assumes "keys_ok s" "marker_ok s" "\<not> truthy (processingJob s)"
  shows "processingJob s = None"
proof (cases "processingJob s")
  case None
  then show ?thesis .
next
  case (Some k)
  with assms(3) have "k = []" by (simp add: truthy_def)
  moreover from assms(2) Some obtain j where "map_of (jobs s) k = Some j"
    unfolding marker_ok_def by blast
  ultimately show ?thesis using assms(1) unfolding keys_ok_def by blast
qed

lemma inv_queue [simp]: "inv (s\<lparr>queue := q\<rparr>) = inv s"
  by (simp add: inv_def keys_ok_def marker_ok_def sessions_ok_def)

lemma inv_processQueue:
  assumes "inv s"
  shows "inv (processQueue now s)"
proof (cases "truthy (processingJob s)")
  case True
  then show ?thesis using assms by (simp add: processQueue_def)
next
  case nt: False
  show ?thesis
  proof (cases "queue s")
    case Nil
    then show ?thesis using assms nt by (simp add: processQueue_def)
  next
    case (Cons k rest)
    show ?thesis
    proof (cases "map_of (jobs s) k")
      case None
      then show ?thesis using assms nt Cons by (simp add: processQueue_def)
    next
      case (Some job)
      show ?thesis
      proof (cases "status job = Queued")
        case False
        then show ?thesis using assms nt Cons Some by (simp add: processQueue_def)
      next
        case True
        let ?s' = "s\<lparr>queue := rest, processingJob := Some (job_id job),
                      jobs := AList.update k (runJob_start now job) (jobs s)\<rparr>"
        have eq: "processQueue now s = ?s'"
          using nt Cons Some True by (simp add: processQueue_def)
        from assms have k: "keys_ok s" and m: "marker_ok s" and se: "sessions_ok s"
          by (simp_all add: inv_def)
        from k Some have id: "job_id job = k" unfolding keys_ok_def by blast
        have "keys_ok ?s'"
          by (rule keys_ok_update[OF k Some]) (simp_all add: runJob_start_def)
        moreover have "marker_ok ?s'"
          by (rule marker_ok_start[OF m marker_none[OF k m nt] Some])
             (simp_all add: runJob_start_def id)
        moreover have "sessions_ok ?s'"
          by (rule sessions_ok_update[OF se Some]) (simp_all add: runJob_start_def)
        ultimately show ?thesis unfolding eq inv_def by blast
      qed
    qed
  qed
qed

lemma inv_worker_update:
  assumes "inv s"
    and f: "\<And>j. job_id (f j) = job_id j \<and> sessionId (f j) = sessionId j \<and> status (f j) = status j"
  shows "inv (worker_update f s)"
proof (cases "processingJob s")
  case None
  then show ?thesis using assms(1) by (simp add: worker_update_def)
next
  case (Some k)
  show ?thesis
  proof (cases "map_of (jobs s) k")
    case None
    then show ?thesis using assms(1) Some by (simp add: worker_update_def)
  next
    case sj: (Some job)
    let ?s' = "s\<lparr>jobs := AList.update k (f job) (jobs s)\<rparr>"
    have eq: "worker_update f s = ?s'" using Some sj by (simp add: worker_update_def)
    from assms(1) have k: "keys_ok s" and m: "marker_ok s" and se: "sessions_ok s"
      by (simp_all add: inv_def)
    have "keys_ok ?s'" by (rule keys_ok_update[OF k sj]) (simp_all add: f)
    moreover have "marker_ok ?s'" by (rule marker_ok_same_status[OF m sj]) (simp_all add: f)
    moreover have "sessions_ok ?s'" by (rule sessions_ok_update[OF se sj]) (simp_all add: f)
    ultimately show ?thesis unfolding eq inv_def by blast
  qed
qed

lemma inv_worker_finish:
  assumes "inv s"
    and f: "\<And>j. job_id (f j) = job_id j \<and> sessionId (f j) = sessionId j \<and> status (f j) \<noteq> Processing"
  shows "inv (worker_finish f s)"
proof (cases "processingJob s")
  case None
  then have "worker_finish f s = s" by (simp add: worker_finish_def worker_update_def)
  then show ?thesis using assms(1) by simp
next
  case (Some k)
  from assms(1) have k: "keys_ok s" and m: "marker_ok s" and se: "sessions_ok s"
    by (simp_all add: inv_def)
  from m Some obtain job where sj: "map_of (jobs s) k = Some job"
    unfolding marker_ok_def by blast
  let ?s' = "s\<lparr>jobs := AList.update k (f job) (jobs s), processingJob := None\<rparr>"
  have eq: "worker_finish f s = ?s'"
    using Some sj by (simp add: worker_finish_def worker_update_def)
  have "keys_ok ?s'" by (rule keys_ok_update[OF k sj]) (simp_all add: f)
  moreover have "marker_ok ?s'" by (rule marker_ok_finish[OF m Some sj]) (simp_all add: f)
  moreover have "sessions_ok ?s'" by (rule sessions_ok_update[OF se sj]) (simp_all add: f)
  ultimately show ?thesis unfolding eq inv_def by blast
qed

lemma removeJob_only_deletes:
  "map_of (jobs (snd (removeJob k s))) k' = Some j \<Longrightarrow> map_of (jobs s) k' = Some j"
  by (simp add: removeJob_map_of split: if_splits)

lemma cleanup_loop_only_deletes:
  "map_of (jobs (cleanup_loop now xs s)) k = Some j \<Longrightarrow> map_of (jobs s) k = Some j"
proof (induction xs arbitrary: s)
  case Nil
  then show ?case by simp
next
  case (Cons x xs)
  obtain jobId job where x: "x = (jobId, job)" by (cases x)
  from Cons.prems have "map_of (jobs (if status job = Processing \<or> status job = Queued then s
        else if now - updatedAt job > JOB_TTL_MS then snd (removeJob jobId s) else s)) k = Some j"
    unfolding x cleanup_loop.simps by (rule Cons.IH)
  then show ?case by (auto dest: removeJob_only_deletes split: if_splits)
qed

lemma cleanup_only_deletes:
  "map_of (jobs (cleanupExpiredJobs now s)) k = Some j \<Longrightarrow> map_of (jobs s) k = Some j"
  unfolding cleanupExpiredJobs_def by (rule cleanup_loop_only_deletes)

lemma cleanup_absent:
  "map_of (jobs s) k = None \<Longrightarrow> map_of (jobs (cleanupExpiredJobs now s)) k = None"
  using cleanup_only_deletes[of now s k] by (cases "map_of (jobs (cleanupExpiredJobs now s)) k") auto

lemma trim_only_deletes:
  "map_of (jobs (trimSessionJobs sid s)) k = Some j \<Longrightarrow> map_of (jobs s) k = Some j"
proof (induction sid s rule: trimSessionJobs.induct)
  case (1 sid s)
  show ?case
  proof (cases "map_of (sessionJobs s) sid")
    case None
    then show ?thesis using "1.prems" by (subst (asm) trimSessionJobs.simps) simp
  next
    case (Some order)
    show ?thesis
    proof (cases "length order > MAX_STORED_JOBS_PER_SESSION \<and> fst (removeJob (hd order) s)")
      case True
      then have "trimSessionJobs sid s = trimSessionJobs sid (snd (removeJob (hd order) s))"
        using Some by (subst trimSessionJobs.simps) (simp add: Let_def)
      with "1.prems" have "map_of (jobs (snd (removeJob (hd order) s))) k = Some j"
        using "1.IH"[OF Some _ refl] True by simp
      then show ?thesis by (rule removeJob_only_deletes)
    next
      case False
      then have "trimSessionJobs sid s = s"
        using Some by (subst trimSessionJobs.simps) (auto simp: Let_def)
      then show ?thesis using "1.prems" by simp
    qed
  qed
qed

lemma inv_insert:
  assumes "inv s" "map_of (jobs s) newId = None" "newId \<noteq> []"
    "job_id job = newId" "status job \<noteq> Processing" "sessionId job = vs"
    "jobs s' = AList.update newId job (jobs s)"
    "\<And>sid. map_of (sessionJobs s') sid =
        (if sid = vs then Some ((case map_of (sessionJobs s) vs of None \<Rightarrow> [] | Some order \<Rightarrow> order) @ [newId])
         else map_of (sessionJobs s) sid)"
    "processingJob s' = processingJob s"
  shows "inv s'"
proof -
  from assms(1) have k: "keys_ok s" and m: "marker_ok s" and se: "sessions_ok s"
    by (simp_all add: inv_def)
  have J: "\<And>k'. map_of (jobs s') k' = (if k' = newId then Some job else map_of (jobs s) k')"
    using assms(7) by (simp add: update_conv')
  have "distinct (map fst (jobs s'))"
    using k assms(7) by (simp add: keys_ok_def distinct_update)
  moreover have "job_id j = k' \<and> k' \<noteq> []" if "map_of (jobs s') k' = Some j" for k' j
    using that k assms(3,4) unfolding keys_ok_def J by (cases "k' = newId") simp_all
  ultimately have K: "keys_ok s'" unfolding keys_ok_def by blast
  have M: "marker_ok s'"
    unfolding marker_ok_def J assms(9)
    using m assms(2,5) unfolding marker_ok_def by (metis option.inject option.distinct(1))
  define old where "old = (case map_of (sessionJobs s) vs of None \<Rightarrow> [] | Some order \<Rightarrow> order)"
  have old_set: "\<exists>j. map_of (jobs s) k' = Some j \<and> sessionId j = vs" if "k' \<in> set old" for k'
  proof (cases "map_of (sessionJobs s) vs")
    case None
    with that show ?thesis by (simp add: old_def)
  next
    case (Some order)
    with that have "k' \<in> set order" by (simp add: old_def)
    from sessions_okD2[OF se Some this] show ?thesis .
  qed
  have old_distinct: "distinct old"
  proof (cases "map_of (sessionJobs s) vs")
    case None
    then show ?thesis by (simp add: old_def)
  next
    case (Some order)
    with sessions_okD1[OF se Some] show ?thesis by (simp add: old_def)
  qed
  have fresh: "newId \<notin> set old"
  proof
    assume "newId \<in> set old"
    from old_set[OF this] assms(2) show False by simp
  qed
  have S: "\<And>sid. map_of (sessionJobs s') sid =
        (if sid = vs then Some (old @ [newId]) else map_of (sessionJobs s) sid)"
    using assms(8) by (simp add: old_def)
  have a: "distinct order \<and> (\<forall>k' \<in> set order. \<exists>j. map_of (jobs s') k' = Some j \<and> sessionId j = sid)"
    if h: "map_of (sessionJobs s') sid = Some order" for sid order
  proof (cases "sid = vs")
    case True
    with h have o: "order = old @ [newId]" by (simp add: S)
    have "\<exists>j. map_of (jobs s') k' = Some j \<and> sessionId j = sid" if "k' \<in> set order" for k'
    proof (cases "k' = newId")
      case True
      then show ?thesis using assms(6) \<open>sid = vs\<close> by (simp add: J)
    next
      case False
      with that o have "k' \<in> set old" by simp
      from old_set[OF this] False True show ?thesis by (simp add: J)
    qed
    then show ?thesis using o old_distinct fresh by simp
  next
    case False
    with h have o: "map_of (sessionJobs s) sid = Some order" by (simp add: S)
    have "\<exists>j. map_of (jobs s') k' = Some j \<and> sessionId j = sid" if "k' \<in> set order" for k'
    proof -
      from sessions_okD2[OF se o that] obtain j
        where j: "map_of (jobs s) k' = Some j" "sessionId j = sid" by blast
      with assms(2) have "k' \<noteq> newId" by auto
      with j show ?thesis by (simp add: J)
    qed
    then show ?thesis using sessions_okD1[OF se o] by blast
  qed
  have b: "\<exists>order. map_of (sessionJobs s') (sessionId j) = Some order \<and> k' \<in> set order"
    if h: "map_of (jobs s') k' = Some j" for k' j
  proof (cases "k' = newId")
    case True
    with h have "j = job" by (simp add: J)
    then show ?thesis using True assms(6) by (simp add: S)
  next
    case False
    with h have j: "map_of (jobs s) k' = Some j" by (simp add: J)
    from sessions_okD3[OF se j] obtain order
      where o: "map_of (sessionJobs s) (sessionId j) = Some order" "k' \<in> set order" by blast
    show ?thesis
    proof (cases "sessionId j = vs")
      case True
      with o have "old = order" by (simp add: old_def)
      with o True show ?thesis by (simp add: S)
    next
      case False
      with o show ?thesis by (simp add: S)
    qed
  qed
  have "sessions_ok s'" unfolding sessions_ok_def using a b by blast
  with K M show ?thesis by (simp add: inv_def)
qed

subsection \<open>createJob, and every step\<close>

lemma newJob_sel [simp]:
  "job_id (newJob newId vs tu pid ro now) = newId"
  "sessionId (newJob newId vs tu pid ro now) = vs"
  "status (newJob newId vs tu pid ro now) = Queued"
  "progress (newJob newId vs tu pid ro now) = 0"
  "updatedAt (newJob newId vs tu pid ro now) = now"
  "job_zip (newJob newId vs tu pid ro now) = None"
  by (simp_all add: newJob_def)

lemma createJob_Inl_session:
  "assertSessionId sid = Inl e \<Longrightarrow> createJob P now newId u sid rsz s = (Inl e, s)"
  by (simp add: createJob_def)

lemma createJob_Inl_url:
  "assertSessionId sid = Inr vs \<Longrightarrow> \<not> truthy (extractPackageId P (trim u))
     \<Longrightarrow> createJob P now newId u sid rsz s = (Inl InvalidUrl, cleanupExpiredJobs now s)"
  by (simp add: createJob_def Let_def)

lemma createJob_Inr:
  assumes v: "assertSessionId sid = Inr vs" and t: "truthy (extractPackageId P (trim u))"
  obtains s3 where
    "jobs s3 = AList.update newId
        (newJob newId vs (trim u) (the (extractPackageId P (trim u))) (normalizeResizeOption rsz) now)
        (jobs (cleanupExpiredJobs now s))"
    "\<And>sid'. map_of (sessionJobs s3) sid' =
        (if sid' = vs
         then Some ((case map_of (sessionJobs (cleanupExpiredJobs now s)) vs of
                       None \<Rightarrow> [] | Some order \<Rightarrow> order) @ [newId])
         else map_of (sessionJobs (cleanupExpiredJobs now s)) sid')"
    "queue s3 = queue (cleanupExpiredJobs now s)"
    "processingJob s3 = processingJob (cleanupExpiredJobs now s)"
    "createJob P now newId u sid rsz s =
       (Inr (toPublicJob
          (case map_of (jobs (processQueue now
                  ((trimSessionJobs vs s3)\<lparr>queue := queue (trimSessionJobs vs s3) @ [newId]\<rparr>))) newId of
             Some live \<Rightarrow> live
           | None \<Rightarrow> newJob newId vs (trim u) (the (extractPackageId P (trim u)))
                       (normalizeResizeOption rsz) now)),
        processQueue now ((trimSessionJobs vs s3)\<lparr>queue := queue (trimSessionJobs vs s3) @ [newId]\<rparr>))"
proof -
  define job where "job = newJob newId vs (trim u) (the (extractPackageId P (trim u)))
                       (normalizeResizeOption rsz) now"
  define s1 where "s1 = cleanupExpiredJobs now s"
  define s2 where "s2 = s1\<lparr>jobs := AList.update newId job (jobs s1)\<rparr>"
  define s3 where "s3 = (case getSessionOrder vs s2 of
                           (order, s') \<Rightarrow> s'\<lparr>sessionJobs :=
                                AList.update vs (order @ [newId]) (sessionJobs s')\<rparr>)"
  have 1: "jobs s3 = AList.update newId job (jobs s1)"
    by (simp add: s3_def s2_def getSessionOrder_def split: option.splits)
  have 2: "map_of (sessionJobs s3) sid' =
        (if sid' = vs
         then Some ((case map_of (sessionJobs s1) vs of None \<Rightarrow> [] | Some order \<Rightarrow> order) @ [newId])
         else map_of (sessionJobs s1) sid')" for sid'
    by (simp add: s3_def s2_def getSessionOrder_def update_conv' split: option.splits)
  have 3: "queue s3 = queue s1" "processingJob s3 = processingJob s1"
    by (simp_all add: s3_def s2_def getSessionOrder_def split: option.splits)
  have 4: "createJob P now newId u sid rsz s =
       (Inr (toPublicJob
          (case map_of (jobs (processQueue now
                  ((trimSessionJobs vs s3)\<lparr>queue := queue (trimSessionJobs vs s3) @ [newId]\<rparr>))) newId of
             Some live \<Rightarrow> live | None \<Rightarrow> job)),
        processQueue now ((trimSessionJobs vs s3)\<lparr>queue := queue (trimSessionJobs vs s3) @ [newId]\<rparr>))"
    using v t unfolding createJob_def s3_def s2_def s1_def job_def
    by (simp add: Let_def)
  show ?thesis
    using that[of s3] 1 2 3 4 unfolding job_def s1_def by blast
qed

lemma inv_createJob:
  assumes i: "inv s" and f: "newId \<noteq> []" "map_of (jobs s) newId = None"
  shows "inv (snd (createJob P now newId u sid rsz s))"
proof (cases "assertSessionId sid")
  case (Inl e)
  then show ?thesis using i by (simp add: createJob_Inl_session)
next
  case (Inr vs)
  have i1: "inv (cleanupExpiredJobs now s)" using i by (rule inv_cleanup)
  show ?thesis
  proof (cases "truthy (extractPackageId P (trim u))")
    case False
    then show ?thesis using i1 Inr by (simp add: createJob_Inl_url)
  next
    case True
    from createJob_Inr[OF Inr True, of newId rsz now s] obtain s3 where
      j: "jobs s3 = AList.update newId
        (newJob newId vs (trim u) (the (extractPackageId P (trim u))) (normalizeResizeOption rsz) now)
        (jobs (cleanupExpiredJobs now s))"
      and se: "\<And>sid'. map_of (sessionJobs s3) sid' =
        (if sid' = vs
         then Some ((case map_of (sessionJobs (cleanupExpiredJobs now s)) vs of
                       None \<Rightarrow> [] | Some order \<Rightarrow> order) @ [newId])
         else map_of (sessionJobs (cleanupExpiredJobs now s)) sid')"
      and p: "processingJob s3 = processingJob (cleanupExpiredJobs now s)"
      and c: "snd (createJob P now newId u sid rsz s) =
        processQueue now ((trimSessionJobs vs s3)\<lparr>queue := queue (trimSessionJobs vs s3) @ [newId]\<rparr>)"
      by (metis snd_conv)
    have "inv s3"
      by (rule inv_insert[OF i1 cleanup_absent[OF f(2)] f(1) _ _ _ j se p]) simp_all
    then have "inv (trimSessionJobs vs s3)" by (rule inv_trim)
    then show ?thesis unfolding c by (intro inv_processQueue) simp
  qed
qed

lemma inv_listJobs:
  assumes i: "inv s"
  shows "inv (snd (listJobs now sid s))"
proof (cases "assertSessionId sid")
  case (Inl e)
  then show ?thesis using i by (simp add: listJobs_def)
next
  case (Inr vs)
  define s1 where "s1 = cleanupExpiredJobs now s"
  have i1: "inv s1" unfolding s1_def using i by (rule inv_cleanup)
  show ?thesis
  proof (cases "map_of (sessionJobs s1) vs")
    case None
    then show ?thesis using i1 Inr by (simp add: listJobs_def s1_def)
  next
    case (Some order)
    from i1 have se: "sessions_ok s1" by (simp add: inv_def)
    have all: "filter (\<lambda>jobId. map_of (jobs s1) jobId \<noteq> None) order = order"
      using sessions_okD2[OF se Some] by (intro filter_True) auto
    have same: "s1\<lparr>sessionJobs := AList.update vs order (sessionJobs s1)\<rparr> = s1"
    proof -
      have "AList.update vs order (sessionJobs s1) = sessionJobs s1"
        using Some by (intro update_triv)
      then show ?thesis by simp
    qed
    show ?thesis
      using i1 Inr Some all same by (simp add: listJobs_def s1_def[symmetric] Let_def)
  qed
qed

lemma inv_getJob: "inv s \<Longrightarrow> inv (snd (getJob now sid jobId s))"
  by (cases "assertSessionId sid")
     (auto simp: getJob_def Let_def inv_cleanup split: option.splits)

lemma inv_getJobDownloadData: "inv s \<Longrightarrow> inv (snd (getJobDownloadData now sid jobId s))"
  by (cases "assertSessionId sid")
     (auto simp: getJobDownloadData_def Let_def inv_cleanup split: option.splits)

lemma inv_init: "inv init"
  by (simp add: inv_def keys_ok_def marker_ok_def sessions_ok_def init_def)

lemma inv_step:
  assumes "inv s" "event_ok s e"
  shows "inv (step P e s)"
proof (cases e)
  case (CreateJob now newId u sid rsz)
  then show ?thesis using assms by (simp add: inv_createJob)
next
  case (ListJobs now sid)
  then show ?thesis using assms by (simp add: inv_listJobs)
next
  case (GetJob now sid jobId)
  then show ?thesis using assms by (simp add: inv_getJob)
next
  case (GetJobDownloadData now sid jobId)
  then show ?thesis using assms by (simp add: inv_getJobDownloadData)
next
  case (ProcessQueue now)
  then show ?thesis using assms by (simp add: inv_processQueue)
next
  case (Progress now stg p msg)
  then show ?thesis using assms by (simp add: inv_worker_update onProgress_def)
next
  case (Succeed now pinfo its pvs z)
  then show ?thesis using assms by (simp add: inv_worker_finish runJob_success_def)
next
  case (Fail now err)
  then show ?thesis using assms by (simp add: inv_worker_finish runJob_failure_def Let_def)
qed

lemma reachable_inv: "reachable P s \<Longrightarrow> inv s"
  by (induction rule: reachable.induct) (simp_all add: inv_init inv_step)

subsection \<open>The marker\<close>

lemma cleanup_loop_processingJob [simp]:
  "processingJob (cleanup_loop now xs s) = processingJob s"
proof (induction xs arbitrary: s)
  case Nil
  then show ?case by simp
next
  case (Cons x xs)
  obtain jobId job where x: "x = (jobId, job)" by (cases x)
  show ?case unfolding x cleanup_loop.simps Cons.IH by (simp add: removeJob_processingJob)
qed

lemma cleanup_processingJob [simp]:
  "processingJob (cleanupExpiredJobs now s) = processingJob s"
  by (simp add: cleanupExpiredJobs_def)

lemma trim_processingJob [simp]:
  "processingJob (trimSessionJobs sid s) = processingJob s"
proof (induction sid s rule: trimSessionJobs.induct)
  case (1 sid s)
  show ?case
  proof (cases "map_of (sessionJobs s) sid")
    case None
    then show ?thesis by (subst trimSessionJobs.simps) simp
  next
    case (Some order)
    show ?thesis
    proof (cases "length order > MAX_STORED_JOBS_PER_SESSION \<and> fst (removeJob (hd order) s)")
      case True
      then have "trimSessionJobs sid s = trimSessionJobs sid (snd (removeJob (hd order) s))"
        using Some by (subst trimSessionJobs.simps) (simp add: Let_def)
      then show ?thesis using "1.IH"[OF Some _ refl] True by (simp add: removeJob_processingJob)
    next
      case False
      then have "trimSessionJobs sid s = s"
        using Some by (subst trimSessionJobs.simps) (auto simp: Let_def)
      then show ?thesis by simp
    qed
  qed
qed

lemma processQueue_busy: "truthy (processingJob s) \<Longrightarrow> processQueue now s = s"
  by (simp add: processQueue_def)

lemma listJobs_processingJob [simp]:
  "processingJob (snd (listJobs now sid s)) = processingJob s"
  by (cases "assertSessionId sid") (auto simp: listJobs_def Let_def split: option.splits)

lemma getJob_processingJob [simp]:
  "processingJob (snd (getJob now sid jobId s)) = processingJob s"
  by (cases "assertSessionId sid") (auto simp: getJob_def Let_def split: option.splits)

lemma getJobDownloadData_processingJob [simp]:
  "processingJob (snd (getJobDownloadData now sid jobId s)) = processingJob s"
  by (cases "assertSessionId sid") (auto simp: getJobDownloadData_def Let_def split: option.splits)

lemma inv_marker_truthy:
  assumes "inv s" "processingJob s = Some k"
  shows "truthy (processingJob s)"
proof -
  from assms obtain j where "map_of (jobs s) k = Some j"
    unfolding inv_def marker_ok_def by blast
  with assms(1) have "k \<noteq> []" unfolding inv_def keys_ok_def by blast
  with assms(2) show ?thesis by (simp add: truthy_def)
qed

lemma createJob_processingJob_busy:
  assumes i: "inv s" and m: "processingJob s = Some k"
  shows "processingJob (snd (createJob P now newId u sid rsz s)) = Some k"
proof (cases "assertSessionId sid")
  case (Inl e)
  then show ?thesis using m by (simp add: createJob_Inl_session)
next
  case (Inr vs)
  show ?thesis
  proof (cases "truthy (extractPackageId P (trim u))")
    case False
    then show ?thesis using m Inr by (simp add: createJob_Inl_url)
  next
    case True
    from createJob_Inr[OF Inr True, of newId rsz now s] obtain s3 where
      p: "processingJob s3 = processingJob (cleanupExpiredJobs now s)"
      and c: "snd (createJob P now newId u sid rsz s) =
        processQueue now ((trimSessionJobs vs s3)\<lparr>queue := queue (trimSessionJobs vs s3) @ [newId]\<rparr>)"
      by (metis snd_conv)
    have "truthy (processingJob ((trimSessionJobs vs s3)\<lparr>queue := queue (trimSessionJobs vs s3) @ [newId]\<rparr>))"
      using inv_marker_truthy[OF i m] by (simp add: p)
    then show ?thesis unfolding c by (simp add: processQueue_busy p m)
  qed
qed

lemma marker_step:
  assumes i: "inv s" and m: "processingJob s = Some k"
  shows "processingJob (step P e s) = Some k \<or> processingJob (step P e s) = None"
proof (cases e)
  case (CreateJob now newId u sid rsz)
  then show ?thesis using createJob_processingJob_busy[OF i m] by simp
next
  case (ProcessQueue now)
  then show ?thesis using inv_marker_truthy[OF i m] m by (simp add: processQueue_busy)
next
  case (Progress now stg p msg)
  then show ?thesis using m by (simp add: worker_update_def split: option.splits)
qed (simp_all add: m worker_finish_def)

lemma inv_count:
  assumes "inv s"
  shows "length (filter (\<lambda>(k, j). status j = Processing) (jobs s)) \<le> 1"
proof -
  let ?xs = "filter (\<lambda>(k, j). status j = Processing) (jobs s)"
  from assms have d: "distinct (map fst (jobs s))" by (simp add: inv_def keys_ok_def)
  then have dx: "distinct (map fst ?xs)" by (rule distinct_map_filter)
  have same: "fst x = fst y" if "x \<in> set ?xs" "y \<in> set ?xs" for x y
  proof -
    obtain k j k' j' where x: "x = (k, j)" and y: "y = (k', j')" by (cases x, cases y) auto
    from that d have "map_of (jobs s) k = Some j" "status j = Processing"
      "map_of (jobs s) k' = Some j'" "status j' = Processing"
      by (auto simp: x y)
    with assms have "processingJob s = Some k" "processingJob s = Some k'"
      unfolding inv_def marker_ok_def by blast+
    then show ?thesis by (simp add: x y)
  qed
  show ?thesis
  proof (cases ?xs)
    case Nil
    then show ?thesis by simp
  next
    case (Cons x xs)
    show ?thesis
    proof (cases xs)
      case Nil
      with Cons show ?thesis by simp
    next
      case (Cons y ys)
      with \<open>?xs = x # xs\<close> have e: "?xs = x # y # ys" by simp
      then have "x \<in> set ?xs" "y \<in> set ?xs" by simp_all
      then have "fst x = fst y" by (rule same)
      with dx show ?thesis unfolding e by simp
    qed
  qed
qed

subsection \<open>Changes of status\<close>

lemma processQueue_job:
  assumes "map_of (jobs (processQueue now s)) k = Some b"
  shows "\<exists>a. map_of (jobs s) k = Some a \<and> (b = a \<or> (status a = Queued \<and> b = runJob_start now a))"
proof (cases "truthy (processingJob s)")
  case True
  then show ?thesis using assms by (simp add: processQueue_busy)
next
  case nt: False
  show ?thesis
  proof (cases "queue s")
    case Nil
    then show ?thesis using assms nt by (simp add: processQueue_def)
  next
    case (Cons n rest)
    show ?thesis
    proof (cases "map_of (jobs s) n")
      case None
      then show ?thesis using assms nt Cons by (simp add: processQueue_def)
    next
      case (Some job)
      show ?thesis
      proof (cases "status job = Queued")
        case False
        then show ?thesis using assms nt Cons Some by (simp add: processQueue_def)
      next
        case True
        have "jobs (processQueue now s) = AList.update n (runJob_start now job) (jobs s)"
          using nt Cons Some True by (simp add: processQueue_def)
        with assms have "(if k = n then Some (runJob_start now job) else map_of (jobs s) k) = Some b"
          by (simp add: update_conv')
        then show ?thesis using Some True by (cases "k = n") auto
      qed
    qed
  qed
qed

lemma worker_update_job:
  assumes "map_of (jobs (worker_update f s)) k = Some b"
  shows "\<exists>a. map_of (jobs s) k = Some a \<and> (b = a \<or> (processingJob s = Some k \<and> b = f a))"
proof (cases "processingJob s")
  case None
  then show ?thesis using assms by (simp add: worker_update_def)
next
  case (Some m)
  show ?thesis
  proof (cases "map_of (jobs s) m")
    case None
    then show ?thesis using assms Some by (simp add: worker_update_def)
  next
    case sj: (Some job)
    have "jobs (worker_update f s) = AList.update m (f job) (jobs s)"
      using Some sj by (simp add: worker_update_def)
    with assms have "(if k = m then Some (f job) else map_of (jobs s) k) = Some b"
      by (simp add: update_conv')
    then show ?thesis using Some sj by (cases "k = m") auto
  qed
qed

lemma worker_finish_jobs: "jobs (worker_finish f s) = jobs (worker_update f s)"
  by (simp add: worker_finish_def)

lemma listJobs_jobs: "jobs (snd (listJobs now sid s)) = jobs s \<or>
    jobs (snd (listJobs now sid s)) = jobs (cleanupExpiredJobs now s)"
  by (cases "assertSessionId sid") (auto simp: listJobs_def Let_def split: option.splits)

lemma getJob_jobs: "jobs (snd (getJob now sid jobId s)) = jobs s \<or>
    jobs (snd (getJob now sid jobId s)) = jobs (cleanupExpiredJobs now s)"
  by (cases "assertSessionId sid") (auto simp: getJob_def Let_def split: option.splits)

lemma getJobDownloadData_jobs: "jobs (snd (getJobDownloadData now sid jobId s)) = jobs s \<or>
    jobs (snd (getJobDownloadData now sid jobId s)) = jobs (cleanupExpiredJobs now s)"
  by (cases "assertSessionId sid") (auto simp: getJobDownloadData_def Let_def split: option.splits)

lemma createJob_job:
  assumes b: "map_of (jobs (snd (createJob P now newId u sid rsz s))) k = Some b"
    and k: "k \<noteq> newId"
  shows "\<exists>a. map_of (jobs s) k = Some a \<and> (b = a \<or> (status a = Queued \<and> b = runJob_start now a))"
proof (cases "assertSessionId sid")
  case (Inl e)
  then show ?thesis using b by (simp add: createJob_Inl_session)
next
  case (Inr vs)
  show ?thesis
  proof (cases "truthy (extractPackageId P (trim u))")
    case False
    then show ?thesis using b Inr by (auto simp: createJob_Inl_url dest: cleanup_only_deletes)
  next
    case True
    from createJob_Inr[OF Inr True, of newId rsz now s] obtain s3 where
      j: "jobs s3 = AList.update newId
        (newJob newId vs (trim u) (the (extractPackageId P (trim u))) (normalizeResizeOption rsz) now)
        (jobs (cleanupExpiredJobs now s))"
      and c: "snd (createJob P now newId u sid rsz s) =
        processQueue now ((trimSessionJobs vs s3)\<lparr>queue := queue (trimSessionJobs vs s3) @ [newId]\<rparr>)"
      by (metis snd_conv)
    from processQueue_job[OF b[unfolded c]] obtain a
      where a: "map_of (jobs (trimSessionJobs vs s3)) k = Some a"
        "b = a \<or> (status a = Queued \<and> b = runJob_start now a)"
      by auto
    from trim_only_deletes[OF a(1)] have "map_of (jobs s3) k = Some a" .
    with k have "map_of (jobs (cleanupExpiredJobs now s)) k = Some a"
      by (simp add: j update_conv')
    from cleanup_only_deletes[OF this] a(2) show ?thesis by blast
  qed
qed

lemma inv_markerD:
  "inv s \<Longrightarrow> processingJob s = Some k
     \<Longrightarrow> \<exists>j. map_of (jobs s) k = Some j \<and> status j = Processing"
  unfolding inv_def marker_ok_def by blast

lemma inv_processingD:
  "inv s \<Longrightarrow> map_of (jobs s) k = Some j \<Longrightarrow> status j = Processing
     \<Longrightarrow> processingJob s = Some k"
  unfolding inv_def marker_ok_def by blast

lemma step_transition:
  assumes i: "inv s" and ok: "event_ok s e"
    and a: "map_of (jobs s) k = Some a" and b: "map_of (jobs (step P e s)) k = Some b"
  shows "status b = status a \<or> (status a = Queued \<and> status b = Processing) \<or>
         (status a = Processing \<and> (status b = Completed \<or> status b = Failed))"
proof (cases e)
  case (CreateJob now newId u sid rsz)
  with ok a have "k \<noteq> newId" by auto
  from createJob_job[OF b[unfolded CreateJob step.simps] this] a
  show ?thesis by (auto simp: runJob_start_def)
next
  case (ListJobs now sid)
  with b listJobs_jobs[of now sid s] have "map_of (jobs s) k = Some b"
    by (auto dest: cleanup_only_deletes)
  with a show ?thesis by simp
next
  case (GetJob now sid jobId)
  with b getJob_jobs[of now sid jobId s] have "map_of (jobs s) k = Some b"
    by (auto dest: cleanup_only_deletes)
  with a show ?thesis by simp
next
  case (GetJobDownloadData now sid jobId)
  with b getJobDownloadData_jobs[of now sid jobId s] have "map_of (jobs s) k = Some b"
    by (auto dest: cleanup_only_deletes)
  with a show ?thesis by simp
next
  case (ProcessQueue now)
  from processQueue_job[OF b[unfolded ProcessQueue step.simps]] a
  show ?thesis by (auto simp: runJob_start_def)
next
  case (Progress now stg p msg)
  from worker_update_job[OF b[unfolded Progress step.simps]] a
  show ?thesis by (auto simp: onProgress_def)
next
  case (Succeed now pinfo its pvs z)
  from worker_update_job[OF b[unfolded Succeed step.simps worker_finish_jobs]] a
  have "b = a \<or> (processingJob s = Some k \<and> b = runJob_success now pinfo its pvs z a)" by auto
  moreover have "status a = Processing" if "processingJob s = Some k"
    using inv_markerD[OF i that] a by auto
  ultimately show ?thesis by (auto simp: runJob_success_def)
next
  case (Fail now err)
  from worker_update_job[OF b[unfolded Fail step.simps worker_finish_jobs]] a
  have "b = a \<or> (processingJob s = Some k \<and> b = runJob_failure now err a)" by auto
  moreover have "status a = Processing" if "processingJob s = Some k"
    using inv_markerD[OF i that] a by auto
  ultimately show ?thesis by (auto simp: runJob_failure_def Let_def)
qed

subsection \<open>What trimSessionJobs leaves\<close>

lemma inv_sessions_ok: "inv s \<Longrightarrow> sessions_ok s"
  by (simp add: inv_def)

lemma trim_spec:
  assumes "inv s" "map_of (sessionJobs s) sid = Some order"
  shows "\<exists>n. n \<le> length order - MAX_STORED_JOBS_PER_SESSION \<and>
     map_of (sessionJobs (trimSessionJobs sid s)) sid = Some (drop n order) \<and>
     (\<forall>k. map_of (jobs (trimSessionJobs sid s)) k =
            (if k \<in> set (take n order) then None else map_of (jobs s) k)) \<and>
     queue (trimSessionJobs sid s) = filter (\<lambda>k. k \<notin> set (take n order)) (queue s) \<and>
     (length order - n \<le> MAX_STORED_JOBS_PER_SESSION \<or>
      (\<exists>j. map_of (jobs s) (order ! n) = Some j \<and> status j = Processing))"
  using assms
proof (induction sid s arbitrary: order rule: trimSessionJobs.induct)
  case (1 sid s)
  note i = "1.prems"(1) and o = "1.prems"(2)
  show ?case
  proof (cases "length order > MAX_STORED_JOBS_PER_SESSION")
    case False
    then have "trimSessionJobs sid s = s"
      using o by (subst trimSessionJobs.simps) simp
    then show ?thesis using o False by (intro exI[of _ 0]) simp
  next
    case long: True
    then have ne: "order \<noteq> []" by auto
    then have hd_in: "hd order \<in> set order" by simp
    from sessions_okD2[OF inv_sessions_ok[OF i] o hd_in] obtain job0
      where job0: "map_of (jobs s) (hd order) = Some job0" "sessionId job0 = sid" by blast
    show ?thesis
    proof (cases "fst (removeJob (hd order) s)")
      case False
      then have "trimSessionJobs sid s = s"
        using o long by (subst trimSessionJobs.simps) (simp add: Let_def)
      moreover from False job0 have "status job0 = Processing"
        by (auto simp: removeJob_fst)
      ultimately show ?thesis using o job0 ne
        by (intro exI[of _ 0]) (simp add: hd_conv_nth)
    next
      case True
      let ?s' = "snd (removeJob (hd order) s)"
      have eq: "trimSessionJobs sid s = trimSessionJobs sid ?s'"
        using o long True by (subst trimSessionJobs.simps) (simp add: Let_def)
      have i': "inv ?s'" using i by (rule inv_removeJob)
      have tl_ne: "tl order \<noteq> []"
        using long by (cases order) (auto simp: MAX_STORED_JOBS_PER_SESSION_def)
      have r1: "remove1 (hd order) order = tl order" using ne by (cases order) auto
      have o': "map_of (sessionJobs ?s') sid = Some (tl order)"
        using True job0 o tl_ne by (simp add: removeJob_sessionJobs r1)
      have J': "\<And>k. map_of (jobs ?s') k = (if k = hd order then None else map_of (jobs s) k)"
        using True by (simp add: removeJob_map_of)
      have Q': "queue ?s' = removeAll (hd order) (queue s)"
        using True by (simp add: removeJob_queue)
      from "1.IH"[OF o long refl True i' o'] obtain n where
        n: "n \<le> length (tl order) - MAX_STORED_JOBS_PER_SESSION"
        and so: "map_of (sessionJobs (trimSessionJobs sid ?s')) sid = Some (drop n (tl order))"
        and jo: "\<And>k. map_of (jobs (trimSessionJobs sid ?s')) k =
                  (if k \<in> set (take n (tl order)) then None else map_of (jobs ?s') k)"
        and qu: "queue (trimSessionJobs sid ?s') = filter (\<lambda>k. k \<notin> set (take n (tl order))) (queue ?s')"
        and st: "length (tl order) - n \<le> MAX_STORED_JOBS_PER_SESSION \<or>
                 (\<exists>j. map_of (jobs ?s') (tl order ! n) = Some j \<and> status j = Processing)"
        by blast
      have tk: "take (Suc n) order = hd order # take n (tl order)"
        using ne by (cases order) auto
      have dr: "drop (Suc n) order = drop n (tl order)"
        by (simp add: drop_Suc)
      have a: "Suc n \<le> length order - MAX_STORED_JOBS_PER_SESSION"
        using n long by simp
      have b: "map_of (sessionJobs (trimSessionJobs sid s)) sid = Some (drop (Suc n) order)"
        unfolding eq dr by (rule so)
      have c: "map_of (jobs (trimSessionJobs sid s)) k =
            (if k \<in> set (take (Suc n) order) then None else map_of (jobs s) k)" for k
        unfolding eq tk by (simp add: jo J')
      have d: "queue (trimSessionJobs sid s) = filter (\<lambda>k. k \<notin> set (take (Suc n) order)) (queue s)"
        unfolding eq tk qu Q' removeAll_filter_not_eq filter_filter
        by (rule filter_cong) auto
      have e: "length order - Suc n \<le> MAX_STORED_JOBS_PER_SESSION \<or>
         (\<exists>j. map_of (jobs s) (order ! Suc n) = Some j \<and> status j = Processing)"
      proof -
        from st show ?thesis
        proof
          assume "length (tl order) - n \<le> MAX_STORED_JOBS_PER_SESSION"
          then show ?thesis by simp
        next
          assume "\<exists>j. map_of (jobs ?s') (tl order ! n) = Some j \<and> status j = Processing"
          then obtain j where j: "map_of (jobs ?s') (tl order ! n) = Some j" "status j = Processing"
            by blast
          from removeJob_only_deletes[OF j(1)] have "map_of (jobs s) (tl order ! n) = Some j" .
          moreover have "tl order ! n = order ! Suc n"
            using ne by (cases order) auto
          ultimately show ?thesis using j(2) by simp
        qed
      qed
      from a b c d e show ?thesis by blast
    qed
  qed
qed

lemma cleanup_loop_queue_empty:
  "queue s = [] \<Longrightarrow> queue (cleanup_loop now xs s) = []"
proof (induction xs arbitrary: s)
  case Nil
  then show ?case by simp
next
  case (Cons x xs)
  obtain jobId job where x: "x = (jobId, job)" by (cases x)
  show ?case unfolding x cleanup_loop.simps
    by (rule Cons.IH) (simp add: Cons.prems removeJob_queue)
qed

lemma cleanup_queue_empty:
  "queue s = [] \<Longrightarrow> queue (cleanupExpiredJobs now s) = []"
  by (simp add: cleanupExpiredJobs_def cleanup_loop_queue_empty)

lemma processQueue_sessionJobs [simp]:
  "sessionJobs (processQueue now s) = sessionJobs s"
  by (simp add: processQueue_def Let_def split: list.splits option.splits)

lemma createJob_InrD:
  assumes "createJob P now newId u sid rsz s = (Inr pj, s')"
  shows "assertSessionId sid = Inr (trim sid)" "truthy (extractPackageId P (trim u))"
proof -
  from assms obtain vs where v: "assertSessionId sid = Inr vs"
    by (cases "assertSessionId sid") (simp_all add: createJob_Inl_session)
  then show "assertSessionId sid = Inr (trim sid)"
    by (simp add: assertSessionId_def split: if_splits)
  show "truthy (extractPackageId P (trim u))"
  proof (rule ccontr)
    assume "\<not> truthy (extractPackageId P (trim u))"
    from createJob_Inl_url[OF v this] assms show False by simp
  qed
qed

lemma createJob_spec:
  assumes i: "inv s" and f: "newId \<noteq> []" "map_of (jobs s) newId = None"
    and v: "assertSessionId sid = Inr vs" and t: "truthy (extractPackageId P (trim u))"
    and job: "job = newJob newId vs (trim u) (the (extractPackageId P (trim u)))
                      (normalizeResizeOption rsz) now"
    and order: "order = (case map_of (sessionJobs (cleanupExpiredJobs now s)) vs of
                           None \<Rightarrow> [] | Some old \<Rightarrow> old) @ [newId]"
  obtains n s4 where
    "n \<le> length order - MAX_STORED_JOBS_PER_SESSION"
    "newId \<notin> set (take n order)"
    "distinct order"
    "map_of (sessionJobs s4) vs = Some (drop n order)"
    "\<And>k. map_of (jobs s4) k =
        (if k \<in> set (take n order) then None
         else if k = newId then Some job
         else map_of (jobs (cleanupExpiredJobs now s)) k)"
    "queue s4 = filter (\<lambda>k. k \<notin> set (take n order)) (queue (cleanupExpiredJobs now s))"
    "processingJob s4 = processingJob s"
    "length order - n \<le> MAX_STORED_JOBS_PER_SESSION \<or>
     (\<exists>j. map_of (jobs s4) (order ! n) = Some j \<and> status j = Processing)"
    "inv s4"
    "createJob P now newId u sid rsz s =
       (Inr (toPublicJob
          (case map_of (jobs (processQueue now (s4\<lparr>queue := queue s4 @ [newId]\<rparr>))) newId of
             Some live \<Rightarrow> live | None \<Rightarrow> job)),
        processQueue now (s4\<lparr>queue := queue s4 @ [newId]\<rparr>))"
proof -
  let ?s1 = "cleanupExpiredJobs now s"
  have i1: "inv ?s1" using i by (rule inv_cleanup)
  from createJob_Inr[OF v t, of newId rsz now s] obtain s3 where
    j3: "jobs s3 = AList.update newId job (jobs ?s1)"
    and se3: "\<And>sid'. map_of (sessionJobs s3) sid' =
        (if sid' = vs then Some order else map_of (sessionJobs ?s1) sid')"
    and q3: "queue s3 = queue ?s1"
    and p3: "processingJob s3 = processingJob ?s1"
    and c: "createJob P now newId u sid rsz s =
       (Inr (toPublicJob
          (case map_of (jobs (processQueue now
                  ((trimSessionJobs vs s3)\<lparr>queue := queue (trimSessionJobs vs s3) @ [newId]\<rparr>))) newId of
             Some live \<Rightarrow> live | None \<Rightarrow> job)),
        processQueue now ((trimSessionJobs vs s3)\<lparr>queue := queue (trimSessionJobs vs s3) @ [newId]\<rparr>))"
    unfolding job order by metis
  have se3': "map_of (sessionJobs s3) sid' =
        (if sid' = vs
         then Some ((case map_of (sessionJobs ?s1) vs of None \<Rightarrow> [] | Some order \<Rightarrow> order) @ [newId])
         else map_of (sessionJobs ?s1) sid')" for sid'
    unfolding se3 order by simp
  have i3: "inv s3"
    by (rule inv_insert[OF i1 cleanup_absent[OF f(2)] f(1) _ _ _ j3 se3' p3])
       (simp_all add: job)
  have o3: "map_of (sessionJobs s3) vs = Some order" by (simp add: se3)
  have d: "distinct order" using inv_sessions_ok[OF i3] o3 by (rule sessions_okD1)
  let ?s4 = "trimSessionJobs vs s3"
  from trim_spec[OF i3 o3] obtain n where
    n: "n \<le> length order - MAX_STORED_JOBS_PER_SESSION"
    and so: "map_of (sessionJobs ?s4) vs = Some (drop n order)"
    and jo: "\<And>k. map_of (jobs ?s4) k = (if k \<in> set (take n order) then None else map_of (jobs s3) k)"
    and qu: "queue ?s4 = filter (\<lambda>k. k \<notin> set (take n order)) (queue s3)"
    and st: "length order - n \<le> MAX_STORED_JOBS_PER_SESSION \<or>
             (\<exists>j. map_of (jobs s3) (order ! n) = Some j \<and> status j = Processing)"
    by blast
  have len: "n < length order"
    using n by (simp add: order MAX_STORED_JOBS_PER_SESSION_def)
  have last: "newId \<notin> set (take n order)"
  proof -
    obtain old where old: "order = old @ [newId]" using order by blast
    with d have "newId \<notin> set old" by simp
    moreover from len old have "take n order = take n old" by simp
    ultimately show ?thesis by (auto dest: in_set_takeD)
  qed
  have J3: "\<And>k. map_of (jobs s3) k = (if k = newId then Some job else map_of (jobs ?s1) k)"
    by (simp add: j3 update_conv')
  have nth: "order ! n \<notin> set (take n order)"
  proof
    assume "order ! n \<in> set (take n order)"
    then obtain m where "m < n" "order ! m = order ! n"
      using len by (auto simp: in_set_conv_nth)
    with d len show False by (auto simp: distinct_conv_nth)
  qed
  have st': "length order - n \<le> MAX_STORED_JOBS_PER_SESSION \<or>
     (\<exists>j. map_of (jobs ?s4) (order ! n) = Some j \<and> status j = Processing)"
    using st nth by (simp add: jo)
  show ?thesis
    by (rule that[of n ?s4, OF n last d so _ _ _ st' inv_trim[OF i3] c])
       (simp_all add: jo J3 qu q3 p3)
qed

subsection \<open>What createJob returns\<close>

lemma toPublicJob_sel [simp]:
  "p_id (toPublicJob j) = job_id j"
  "p_status (toPublicJob j) = status j"
  "p_progress (toPublicJob j) = progress j"
  by (simp_all add: toPublicJob_def)

lemma processQueue_present:
  assumes "map_of (jobs s) k = Some a"
  shows "\<exists>b. map_of (jobs (processQueue now s)) k = Some b \<and>
             (b = a \<or> (status a = Queued \<and> b = runJob_start now a))"
proof (cases "map_of (jobs (processQueue now s)) k")
  case None
  show ?thesis
  proof (cases "truthy (processingJob s)")
    case True
    then show ?thesis using assms by (simp add: processQueue_busy)
  next
    case nt: False
    have "map_of (jobs (processQueue now s)) k \<noteq> None"
      using assms nt
      by (auto simp: processQueue_def Let_def update_conv' split: list.splits option.splits)
    with None show ?thesis by simp
  qed
next
  case (Some b)
  from processQueue_job[OF Some] assms show ?thesis using Some by auto
qed

lemma createJob_result:
  assumes i: "inv s" and f: "newId \<noteq> []" "map_of (jobs s) newId = None"
    and c: "createJob P now newId u sid rsz s = (Inr pj, s')"
  shows "(\<exists>live. map_of (jobs s') newId = Some live \<and> pj = toPublicJob live) \<and>
         ((p_status pj = Queued \<and> p_progress pj = 0) \<or>
          (p_status pj = Processing \<and> p_progress pj = 1 / 100)) \<and>
         (processingJob s \<noteq> None \<longrightarrow> p_status pj = Queued \<and> p_progress pj = 0) \<and>
         (processingJob s = None \<and> queue s = [] \<longrightarrow>
            p_status pj = Processing \<and> p_progress pj = 1 / 100)"
proof -
  note v = createJob_InrD[OF c]
  define job where "job = newJob newId (trim sid) (trim u) (the (extractPackageId P (trim u)))
                      (normalizeResizeOption rsz) now"
  define order where "order = (case map_of (sessionJobs (cleanupExpiredJobs now s)) (trim sid) of
                           None \<Rightarrow> [] | Some old \<Rightarrow> old) @ [newId]"
  from createJob_spec[OF i f v job_def order_def] obtain n s4 where
    last: "newId \<notin> set (take n order)"
    and jo: "\<And>k. map_of (jobs s4) k =
        (if k \<in> set (take n order) then None
         else if k = newId then Some job
         else map_of (jobs (cleanupExpiredJobs now s)) k)"
    and qu: "queue s4 = filter (\<lambda>k. k \<notin> set (take n order)) (queue (cleanupExpiredJobs now s))"
    and pr: "processingJob s4 = processingJob s"
    and i4: "inv s4"
    and cr: "createJob P now newId u sid rsz s =
       (Inr (toPublicJob
          (case map_of (jobs (processQueue now (s4\<lparr>queue := queue s4 @ [newId]\<rparr>))) newId of
             Some live \<Rightarrow> live | None \<Rightarrow> job)),
        processQueue now (s4\<lparr>queue := queue s4 @ [newId]\<rparr>))"
    by metis
  let ?s5 = "s4\<lparr>queue := queue s4 @ [newId]\<rparr>"
  have j5: "map_of (jobs ?s5) newId = Some job" using last by (simp add: jo)
  from processQueue_present[OF j5, of now] obtain live where
    live: "map_of (jobs (processQueue now ?s5)) newId = Some live"
      "live = job \<or> live = runJob_start now job"
    by blast
  from c cr live(1) have s': "s' = processQueue now ?s5" and pj: "pj = toPublicJob live"
    by simp_all
  have 1: "\<exists>live. map_of (jobs s') newId = Some live \<and> pj = toPublicJob live"
    using live(1) s' pj by blast
  have 2: "(p_status pj = Queued \<and> p_progress pj = 0) \<or>
          (p_status pj = Processing \<and> p_progress pj = 1 / 100)"
    using live(2) unfolding pj by (auto simp: job_def runJob_start_def)
  have 3: "p_status pj = Queued \<and> p_progress pj = 0" if "processingJob s \<noteq> None"
  proof -
    from that obtain k where k: "processingJob s4 = Some k" by (auto simp: pr)
    from inv_marker_truthy[OF i4 k] have "processQueue now ?s5 = ?s5"
      by (intro processQueue_busy) simp
    with live(1) j5 have "live = job" by simp
    then show ?thesis unfolding pj by (simp add: job_def)
  qed
  have 4: "p_status pj = Processing \<and> p_progress pj = 1 / 100"
    if "processingJob s = None \<and> queue s = []"
  proof -
    from that have "queue (cleanupExpiredJobs now s) = []" by (simp add: cleanup_queue_empty)
    then have q5: "queue ?s5 = [newId]" by (simp add: qu)
    have "jobs (processQueue now ?s5) = AList.update newId (runJob_start now job) (jobs ?s5)"
      using that q5 j5 pr by (simp add: processQueue_def truthy_def job_def)
    with live(1) have "live = runJob_start now job" by (simp add: update_conv')
    then show ?thesis unfolding pj by (simp add: runJob_start_def)
  qed
  from 1 2 3 4 show ?thesis by blast
qed

lemma processQueue_dom:
  "(map_of (jobs (processQueue now s)) k = None) = (map_of (jobs s) k = None)"
proof (cases "map_of (jobs s) k")
  case None
  show ?thesis
  proof (cases "map_of (jobs (processQueue now s)) k")
    case n: None
    with None show ?thesis by simp
  next
    case (Some b)
    from processQueue_job[OF Some] None show ?thesis by simp
  qed
next
  case (Some a)
  from processQueue_present[OF Some, of now] Some show ?thesis by auto
qed


subsection \<open>The TTL cleanup\<close>

lemma expired_alt:
  "expired now job \<longleftrightarrow>
     \<not> (status job = Processing \<or> status job = Queued) \<and> now - updatedAt job > JOB_TTL_MS"
  by (cases "status job") (simp_all add: expired_def)

lemma cleanup_loop_step:
  "cleanup_loop now ((jobId, job) # rest) s =
     cleanup_loop now rest (if expired now job then snd (removeJob jobId s) else s)"
  by (auto simp: expired_alt)

lemma removeJob_absent:
  "map_of (jobs s) k = None \<Longrightarrow> map_of (jobs (snd (removeJob k' s))) k = None"
  by (simp add: removeJob_map_of)

lemma cleanup_loop_absent:
  "map_of (jobs s) k = None \<Longrightarrow> map_of (jobs (cleanup_loop now xs s)) k = None"
  using cleanup_loop_only_deletes[of now xs s k]
  by (cases "map_of (jobs (cleanup_loop now xs s)) k") auto

lemma cleanup_loop_removes:
  assumes "(k, j) \<in> set xs" "expired now j"
    "map_of (jobs s) k = None \<or> map_of (jobs s) k = Some j"
  shows "map_of (jobs (cleanup_loop now xs s)) k = None"
  using assms
proof (induction xs arbitrary: s)
  case Nil
  then show ?case by simp
next
  case (Cons x xs)
  obtain k' j' where x: "x = (k', j')" by (cases x)
  let ?s' = "if expired now j' then snd (removeJob k' s) else s"
  have st: "map_of (jobs ?s') k = None \<or> map_of (jobs ?s') k = Some j"
    using Cons.prems(3) by (auto simp: removeJob_map_of)
  show ?case
  proof (cases "(k', j') = (k, j)")
    case True
    have "fst (removeJob k s)" if "map_of (jobs s) k = Some j"
      using that Cons.prems(2) by (auto simp: removeJob_fst expired_def)
    then have "map_of (jobs (snd (removeJob k s))) k = None"
      using Cons.prems(3) by (auto simp: removeJob_map_of)
    then have "map_of (jobs ?s') k = None" using True Cons.prems(2) by simp
    then show ?thesis unfolding x cleanup_loop_step by (rule cleanup_loop_absent)
  next
    case False
    with Cons.prems(1) have "(k, j) \<in> set xs" by (auto simp: x)
    from Cons.IH[OF this Cons.prems(2) st] show ?thesis unfolding x cleanup_loop_step .
  qed
qed

lemma cleanup_removes:
  assumes "map_of (jobs s) k = Some j" "expired now j"
  shows "map_of (jobs (cleanupExpiredJobs now s)) k = None"
  unfolding cleanupExpiredJobs_def
  by (rule cleanup_loop_removes[OF map_of_SomeD[OF assms(1)] assms(2)]) (simp add: assms(1))

lemma cleanup_loop_keeps:
  assumes "\<And>j'. (k, j') \<in> set xs \<Longrightarrow> \<not> expired now j'"
  shows "map_of (jobs (cleanup_loop now xs s)) k = map_of (jobs s) k"
  using assms
proof (induction xs arbitrary: s)
  case Nil
  then show ?case by simp
next
  case (Cons x xs)
  obtain k' j' where x: "x = (k', j')" by (cases x)
  let ?s' = "if expired now j' then snd (removeJob k' s) else s"
  have "map_of (jobs ?s') k = map_of (jobs s) k"
    using Cons.prems[of j'] by (auto simp: x removeJob_map_of)
  moreover have "map_of (jobs (cleanup_loop now xs ?s')) k = map_of (jobs ?s') k"
    by (rule Cons.IH) (simp add: Cons.prems)
  ultimately show ?case unfolding x cleanup_loop_step by simp
qed

lemma cleanup_keeps:
  assumes "distinct (map fst (jobs s))" "map_of (jobs s) k = Some j" "\<not> expired now j"
  shows "map_of (jobs (cleanupExpiredJobs now s)) k = Some j"
proof -
  have "\<not> expired now j'" if "(k, j') \<in> set (jobs s)" for j'
  proof -
    from that assms(1) have "map_of (jobs s) k = Some j'" by simp
    with assms(2,3) show ?thesis by simp
  qed
  from cleanup_loop_keeps[of k "jobs s" now s, OF this] assms(2)
  show ?thesis by (simp add: cleanupExpiredJobs_def)
qed

lemma inv_distinct: "inv s \<Longrightarrow> distinct (map fst (jobs s))"
  by (simp add: inv_def keys_ok_def)

lemma inv_job_id: "inv s \<Longrightarrow> map_of (jobs s) k = Some j \<Longrightarrow> job_id j = k"
  unfolding inv_def keys_ok_def by blast

lemma cleanup_map_of:
  assumes "inv s"
  shows "map_of (jobs (cleanupExpiredJobs now s)) k =
     (case map_of (jobs s) k of
        None \<Rightarrow> None
      | Some j \<Rightarrow> if expired now j then None else Some j)"
proof (cases "map_of (jobs s) k")
  case None
  then show ?thesis by (simp add: cleanup_absent)
next
  case (Some j)
  then show ?thesis
    using cleanup_removes[OF Some, of now] cleanup_keeps[OF inv_distinct[OF assms] Some, of now]
    by auto
qed

subsection \<open>Jobs that are gone\<close>

lemma reachable_run:
  "reachable P s \<Longrightarrow> events_ok P es s \<Longrightarrow> reachable P (run P es s)"
  by (induction es arbitrary: s) (auto intro: reachable_step)

lemma listJobs_valid:
  "assertSessionId sid = Inr vs \<Longrightarrow>
     jobs (snd (listJobs now sid s)) = jobs (cleanupExpiredJobs now s)"
  by (auto simp: listJobs_def Let_def split: option.splits)

lemma getJob_valid:
  "assertSessionId sid = Inr vs \<Longrightarrow> snd (getJob now sid jobId s) = cleanupExpiredJobs now s"
  by (auto simp: getJob_def Let_def split: option.splits)

lemma getJobDownloadData_valid:
  "assertSessionId sid = Inr vs \<Longrightarrow>
     snd (getJobDownloadData now sid jobId s) = cleanupExpiredJobs now s"
  by (auto simp: getJobDownloadData_def Let_def split: option.splits)

lemma createJob_absent:
  assumes v: "assertSessionId sid = Inr vs"
    and k: "map_of (jobs (cleanupExpiredJobs now s)) k = None" "k \<noteq> newId"
  shows "map_of (jobs (snd (createJob P now newId u sid rsz s))) k = None"
proof (cases "truthy (extractPackageId P (trim u))")
  case False
  then show ?thesis using v k by (simp add: createJob_Inl_url)
next
  case True
  from createJob_Inr[OF v True, of newId rsz now s] obtain s3 where
    j: "jobs s3 = AList.update newId
      (newJob newId vs (trim u) (the (extractPackageId P (trim u))) (normalizeResizeOption rsz) now)
      (jobs (cleanupExpiredJobs now s))"
    and c: "snd (createJob P now newId u sid rsz s) =
      processQueue now ((trimSessionJobs vs s3)\<lparr>queue := queue (trimSessionJobs vs s3) @ [newId]\<rparr>)"
    by (metis snd_conv)
  have "map_of (jobs s3) k = None" using k by (simp add: j update_conv')
  then have "map_of (jobs (trimSessionJobs vs s3)) k = None"
    using trim_only_deletes[of vs s3 k] by (cases "map_of (jobs (trimSessionJobs vs s3)) k") auto
  then show ?thesis unfolding c by (simp add: processQueue_dom)
qed

lemma getJob_absent:
  "map_of (jobs (cleanupExpiredJobs now s)) k = None \<Longrightarrow> fst (getJob now sid k s) \<noteq> Inr (Some pj)"
  by (cases "assertSessionId sid") (auto simp: getJob_def Let_def)

lemma getJob_absent_valid:
  "assertSessionId sid = Inr vs \<Longrightarrow> map_of (jobs (cleanupExpiredJobs now s)) k = None
     \<Longrightarrow> fst (getJob now sid k s) = Inr None"
  by (auto simp: getJob_def Let_def)

lemma listJobs_ids:
  assumes i: "inv s" and r: "fst (listJobs now sid s) = Inr res" and p: "pj \<in> set res"
  shows "\<exists>j. map_of (jobs (cleanupExpiredJobs now s)) (p_id pj) = Some j \<and> pj = toPublicJob j"
proof (cases "assertSessionId sid")
  case (Inl e)
  with r show ?thesis by (simp add: listJobs_def)
next
  case (Inr vs)
  let ?s1 = "cleanupExpiredJobs now s"
  have i1: "inv ?s1" using i by (rule inv_cleanup)
  show ?thesis
  proof (cases "map_of (sessionJobs ?s1) vs")
    case None
    with r p Inr show ?thesis by (simp add: listJobs_def)
  next
    case (Some order)
    show ?thesis
    proof (cases "order = []")
      case True
      with r p Inr Some show ?thesis by (simp add: listJobs_def)
    next
      case False
      with r Inr Some have "res = map (\<lambda>jobId. toPublicJob (the (map_of (jobs ?s1) jobId)))
                               (filter (\<lambda>jobId. map_of (jobs ?s1) jobId \<noteq> None) order)"
        by (simp add: listJobs_def Let_def)
      with p obtain jobId j where j: "map_of (jobs ?s1) jobId = Some j" "pj = toPublicJob j"
        by auto
      from inv_job_id[OF i1 j(1)] j show ?thesis by simp
    qed
  qed
qed

lemma listJobs_absent:
  assumes "inv s" "map_of (jobs (cleanupExpiredJobs now s)) k = None"
    "fst (listJobs now sid s) = Inr res"
  shows "k \<notin> p_id ` set res"
proof
  assume "k \<in> p_id ` set res"
  then obtain pj where pj: "pj \<in> set res" "p_id pj = k" by auto
  from listJobs_ids[OF assms(1,3) pj(1)] assms(2) pj(2) show False by simp
qed

lemma listJobs_only_deletes:
  assumes "map_of (jobs (snd (listJobs now sid s))) k = Some b"
  shows "map_of (jobs s) k = Some b"
proof -
  from listJobs_jobs[of now sid s] show ?thesis
  proof
    assume "jobs (snd (listJobs now sid s)) = jobs s"
    with assms show ?thesis by simp
  next
    assume "jobs (snd (listJobs now sid s)) = jobs (cleanupExpiredJobs now s)"
    with assms have "map_of (jobs (cleanupExpiredJobs now s)) k = Some b" by simp
    then show ?thesis by (rule cleanup_only_deletes)
  qed
qed

lemma getJob_only_deletes:
  assumes "map_of (jobs (snd (getJob now sid jobId s))) k = Some b"
  shows "map_of (jobs s) k = Some b"
proof -
  from getJob_jobs[of now sid jobId s] show ?thesis
  proof
    assume "jobs (snd (getJob now sid jobId s)) = jobs s"
    with assms show ?thesis by simp
  next
    assume "jobs (snd (getJob now sid jobId s)) = jobs (cleanupExpiredJobs now s)"
    with assms have "map_of (jobs (cleanupExpiredJobs now s)) k = Some b" by simp
    then show ?thesis by (rule cleanup_only_deletes)
  qed
qed

lemma getJobDownloadData_only_deletes:
  assumes "map_of (jobs (snd (getJobDownloadData now sid jobId s))) k = Some b"
  shows "map_of (jobs s) k = Some b"
proof -
  from getJobDownloadData_jobs[of now sid jobId s] show ?thesis
  proof
    assume "jobs (snd (getJobDownloadData now sid jobId s)) = jobs s"
    with assms show ?thesis by simp
  next
    assume "jobs (snd (getJobDownloadData now sid jobId s)) = jobs (cleanupExpiredJobs now s)"
    with assms have "map_of (jobs (cleanupExpiredJobs now s)) k = Some b" by simp
    then show ?thesis by (rule cleanup_only_deletes)
  qed
qed

lemma step_absent:
  assumes a: "map_of (jobs s) k = None"
    and n: "\<And>now newId u sid rsz. e = CreateJob now newId u sid rsz \<Longrightarrow> newId \<noteq> k"
  shows "map_of (jobs (step P e s)) k = None"
proof (cases "map_of (jobs (step P e s)) k")
  case None
  then show ?thesis .
next
  case (Some b)
  have "\<exists>a. map_of (jobs s) k = Some a"
  proof (cases e)
    case (CreateJob now newId u sid rsz)
    from n[OF CreateJob] have "k \<noteq> newId" by blast
    from createJob_job[OF Some[unfolded CreateJob step.simps] this]
    show ?thesis by blast
  next
    case (ListJobs now sid)
    with Some show ?thesis by (auto dest: listJobs_only_deletes)
  next
    case (GetJob now sid jobId)
    with Some show ?thesis by (auto dest: getJob_only_deletes)
  next
    case (GetJobDownloadData now sid jobId)
    with Some show ?thesis by (auto dest: getJobDownloadData_only_deletes)
  next
    case (ProcessQueue now)
    from processQueue_job[OF Some[unfolded ProcessQueue step.simps]] show ?thesis by blast
  next
    case (Progress now stg p msg)
    from worker_update_job[OF Some[unfolded Progress step.simps]] show ?thesis by blast
  next
    case (Succeed now pinfo its pvs z)
    from worker_update_job[OF Some[unfolded Succeed step.simps worker_finish_jobs]]
    show ?thesis by blast
  next
    case (Fail now err)
    from worker_update_job[OF Some[unfolded Fail step.simps worker_finish_jobs]]
    show ?thesis by blast
  qed
  with a show ?thesis by simp
qed

lemma run_absent:
  assumes "map_of (jobs s) k = None"
    and "\<And>now newId u sid rsz. CreateJob now newId u sid rsz \<in> set es \<Longrightarrow> newId \<noteq> k"
  shows "map_of (jobs (run P es s)) k = None"
  using assms
proof (induction es arbitrary: s)
  case Nil
  then show ?case by simp
next
  case (Cons e es)
  have "map_of (jobs (step P e s)) k = None"
  proof (rule step_absent[OF Cons.prems(1)])
    fix now newId u sid rsz
    assume "e = CreateJob now newId u sid rsz"
    then have "CreateJob now newId u sid rsz \<in> set (e # es)" by simp
    then show "newId \<noteq> k" by (rule Cons.prems(2))
  qed
  then have "map_of (jobs (run P es (step P e s))) k = None"
  proof (rule Cons.IH)
    fix now newId u sid rsz
    assume "CreateJob now newId u sid rsz \<in> set es"
    then have "CreateJob now newId u sid rsz \<in> set (e # es)" by simp
    then show "newId \<noteq> k" by (rule Cons.prems(2))
  qed
  then show ?case by simp
qed

subsection \<open>The concrete runs are reachable\<close>

lemma reachable_demo1: "reachable rejectURL demo1"
  unfolding demo1_def by (rule reachable_run[OF reachable_init]) code_simp

lemma reachable_demoFailed: "reachable rejectURL demoFailed"
  unfolding demoFailed_def by (rule reachable_run[OF reachable_init]) code_simp

lemma reachable_demo15: "reachable rejectURL demo15"
  unfolding demo15_def by (rule reachable_run[OF reachable_init]) code_simp


lemma reachable_demoCompleted: "reachable rejectURL demoCompleted"
  unfolding demoCompleted_def by (rule reachable_run[OF reachable_init]) code_simp

lemma result_Inr: "\<not> isl (fst x) \<Longrightarrow> x = (Inr (projr (fst x)), snd x)"
  by (cases x, cases "fst x") auto

subsection \<open>A job that enters the registry\<close>

lemma step_new_job:
  assumes i: "inv s" and ok: "event_ok s e"
    and a: "map_of (jobs s) k = None" and b: "map_of (jobs (step P e s)) k = Some b"
  shows "status b = Queued \<or> status b = Processing"
proof -
  have "\<exists>now newId u sid rsz. e = CreateJob now newId u sid rsz \<and> newId = k"
  proof (rule ccontr)
    assume n: "\<not> (\<exists>now newId u sid rsz. e = CreateJob now newId u sid rsz \<and> newId = k)"
    have "map_of (jobs (step P e s)) k = None"
      by (rule step_absent[OF a]) (use n in blast)
    with b show False by simp
  qed
  then obtain now u sid rsz where e: "e = CreateJob now k u sid rsz" by blast
  let ?r = "createJob P now k u sid rsz s"
  from b e have bs: "map_of (jobs (snd ?r)) k = Some b" by simp
  have "\<not> isl (fst ?r)"
  proof
    assume "isl (fst ?r)"
    then have "snd ?r = s \<or> snd ?r = cleanupExpiredJobs now s"
      by (cases "assertSessionId sid")
         (auto simp: createJob_def Let_def split: if_splits)
    with a cleanup_absent[OF a, of now] bs show False by auto
  qed
  from result_Inr[OF this] have r: "?r = (Inr (projr (fst ?r)), snd ?r)" .
  from ok e have f: "k \<noteq> []" by simp
  from createJob_result[OF i f a r] bs show ?thesis by auto
qed

subsection \<open>The operations, from the state before\<close>

lemma getJobDownloadData_closed:
  assumes "inv s"
  shows "getJobDownloadData now sid jobId s =
     (case assertSessionId sid of
        Inl e \<Rightarrow> (Inl SessionRequired, s)
      | Inr vs \<Rightarrow>
          (case map_of (jobs s) jobId of
             None \<Rightarrow> Inl JobNotFound
           | Some j \<Rightarrow>
               if sessionId j \<noteq> vs \<or> expired now j then Inl JobNotFound
               else if status j \<noteq> Completed \<or> job_zip j = None then Inl NotReady
               else Inr (the (job_zip j)),
           cleanupExpiredJobs now s))"
proof (cases "assertSessionId sid")
  case (Inl e)
  then have "e = SessionRequired" by (simp add: assertSessionId_def split: if_splits)
  with Inl show ?thesis by (simp add: getJobDownloadData_def)
next
  case (Inr vs)
  show ?thesis
  proof (cases "map_of (jobs s) jobId")
    case None
    then show ?thesis using Inr by (simp add: getJobDownloadData_def Let_def cleanup_absent)
  next
    case (Some j)
    then show ?thesis using Inr
      by (simp add: getJobDownloadData_def Let_def cleanup_map_of[OF assms])
  qed
qed

lemma expired_job_removed:
  assumes i: "inv s" and j: "map_of (jobs s) k = Some j" and v: "assertSessionId sid = Inr vs"
    and e: "expired now j"
  shows "map_of (jobs (snd (listJobs now sid s))) k = None"
    "map_of (jobs (snd (getJob now sid jobId s))) k = None"
    "map_of (jobs (snd (getJobDownloadData now sid jobId s))) k = None"
    "event_ok s (CreateJob now newId u sid rsz) \<Longrightarrow>
       map_of (jobs (snd (createJob P now newId u sid rsz s))) k = None"
    "fst (getJob now sid k s) = Inr None"
    "fst (listJobs now sid s) = Inr res \<Longrightarrow> k \<notin> p_id ` set res"
proof -
  have c: "map_of (jobs (cleanupExpiredJobs now s)) k = None"
    using j e by (rule cleanup_removes)
  show "map_of (jobs (snd (listJobs now sid s))) k = None"
    by (simp add: listJobs_valid[OF v] c)
  show "map_of (jobs (snd (getJob now sid jobId s))) k = None"
    by (simp add: getJob_valid[OF v] c)
  show "map_of (jobs (snd (getJobDownloadData now sid jobId s))) k = None"
    by (simp add: getJobDownloadData_valid[OF v] c)
  show "map_of (jobs (snd (createJob P now newId u sid rsz s))) k = None"
    if "event_ok s (CreateJob now newId u sid rsz)"
  proof -
    from that j have "k \<noteq> newId" by auto
    with v c show ?thesis by (rule createJob_absent)
  qed
  show "fst (getJob now sid k s) = Inr None"
    using v c by (rule getJob_absent_valid)
  show "k \<notin> p_id ` set res" if "fst (listJobs now sid s) = Inr res"
    using i c that by (rule listJobs_absent)
qed

lemma absent_job_stays_absent:
  assumes r: "reachable P s1" and a: "map_of (jobs s1) k = None" and ok: "events_ok P es s1"
    and n: "\<And>t n u1 c r. CreateJob t n u1 c r \<in> set es \<Longrightarrow> n \<noteq> k"
  shows "map_of (jobs (run P es s1)) k = None"
    "fst (getJob now1 sid1 k (run P es s1)) \<noteq> Inr (Some pj)"
    "fst (listJobs now1 sid1 (run P es s1)) = Inr res \<Longrightarrow> k \<notin> p_id ` set res"
proof -
  show g: "map_of (jobs (run P es s1)) k = None" using a n by (rule run_absent)
  then have c: "map_of (jobs (cleanupExpiredJobs now1 (run P es s1))) k = None"
    by (rule cleanup_absent)
  then show "fst (getJob now1 sid1 k (run P es s1)) \<noteq> Inr (Some pj)" by (rule getJob_absent)
  have "inv (run P es s1)" using reachable_run[OF r ok] by (rule reachable_inv)
  then show "k \<notin> p_id ` set res" if "fst (listJobs now1 sid1 (run P es s1)) = Inr res"
    using c that by (rule listJobs_absent)
qed

subsection \<open>The fallback pattern\<close>

lemma isDigit_not_letter: "isDigit c \<Longrightarrow> \<not> isLetter c"
  by (auto simp: isDigit_def isLetter_def Let_def)

lemma fallback_at_nondigit: "\<not> isDigit c \<Longrightarrow> fallback_at (c # cs) = None"
  by (simp add: fallback_at_def)

lemma fallback_at_Nil: "fallback_at [] = None"
  by (simp add: fallback_at_def)

text \<open>A string that starts with the digits \<open>ds\<close>, not followed by a digit.\<close>

lemma takeWhile_run:
  assumes "list_all isDigit ds" "rest = [] \<or> \<not> isDigit (hd rest)"
  shows "takeWhile isDigit (ds @ rest) = ds" "dropWhile isDigit (ds @ rest) = rest"
proof -
  have a: "\<forall>x \<in> set ds. isDigit x" using assms(1) by (simp add: list_all_iff)
  have t: "takeWhile isDigit rest = []" using assms(2) by (cases rest) auto
  have d: "dropWhile isDigit rest = rest" using assms(2) by (cases rest) auto
  show "takeWhile isDigit (ds @ rest) = ds" using a t by (simp add: takeWhile_append2)
  show "dropWhile isDigit (ds @ rest) = rest" using a d by (simp add: dropWhile_append2)
qed

lemma find_rev_upt:
  assumes "a \<le> m" "\<And>k. a \<le> k \<Longrightarrow> k < m \<Longrightarrow> P k"
  shows "find P (rev [a ..< Suc m]) = (if P m then Some m else if a < m then Some (m - 1) else None)"
proof (cases "P m")
  case True
  then show ?thesis using assms(1) by simp
next
  case False
  show ?thesis
  proof (cases "a < m")
    case True
    then obtain m' where m': "m = Suc m'" by (cases m) auto
    with True have "a \<le> m'" by simp
    moreover have "P m'" using assms(2)[of m'] m' True by simp
    ultimately show ?thesis using False m' by simp
  next
    case nl: False
    with assms(1) have "a = m" by simp
    then show ?thesis using False by simp
  qed
qed

lemma fallback_at_run:
  assumes ds: "list_all isDigit ds" and rest: "rest = [] \<or> \<not> isDigit (hd rest)"
  shows "fallback_at (ds @ rest) =
     (if length ds < 3 then None
      else if \<not> (rest \<noteq> [] \<and> isLetter (hd rest)) then Some ds
      else if 4 \<le> length ds then Some (butlast ds)
      else None)"
proof (cases "length ds < 3")
  case True
  then have "[3 ..< Suc (length ds)] = []" by simp
  then show ?thesis using True by (simp add: fallback_at_def takeWhile_run[OF ds rest])
next
  case False
  then have three: "3 \<le> length ds" by simp
  let ?s = "ds @ rest"
  have inner: "\<not> letter_at ?s k" if "k < length ds" for k
  proof -
    from that have "?s ! k = ds ! k" by (simp add: nth_append)
    moreover from that ds have "isDigit (ds ! k)" by (simp add: list_all_length)
    ultimately show ?thesis by (simp add: letter_at_def isDigit_not_letter)
  qed
  have at_end: "letter_at ?s (length ds) \<longleftrightarrow> rest \<noteq> [] \<and> isLetter (hd rest)"
    by (cases rest) (simp_all add: letter_at_def nth_append)
  have f: "find (\<lambda>k. \<not> letter_at ?s k) (rev [3 ..< Suc (length ds)]) =
        (if \<not> letter_at ?s (length ds) then Some (length ds)
         else if 3 < length ds then Some (length ds - 1) else None)"
    by (rule find_rev_upt[OF three]) (simp add: inner)
  have b: "take (length ds - 1) ?s = butlast ds"
    using three by (simp add: butlast_conv_take)
  have "fallback_at ?s =
      map_option (\<lambda>k. take k ?s)
        (find (\<lambda>k. \<not> letter_at ?s k) (rev [3 ..< Suc (length ds)]))"
    by (simp only: fallback_at_def takeWhile_run(1)[OF ds rest])
  also have "\<dots> = map_option (\<lambda>k. take k ?s)
        (if \<not> letter_at ?s (length ds) then Some (length ds)
         else if 3 < length ds then Some (length ds - 1) else None)"
    by (simp only: f)
  also have "\<dots> = (if length ds < 3 then None
      else if \<not> (rest \<noteq> [] \<and> isLetter (hd rest)) then Some ds
      else if 4 \<le> length ds then Some (butlast ds)
      else None)"
    using three b by (auto simp: at_end)
  finally show ?thesis .
qed


lemma numericFallback_skip_short:
  assumes "list_all isDigit ds" "rest = [] \<or> \<not> isDigit (hd rest)" "length ds < 3"
  shows "numericFallback (ds @ rest) = numericFallback rest"
  using assms
proof (induction ds)
  case Nil
  then show ?case by simp
next
  case (Cons d ds)
  have "fallback_at ((d # ds) @ rest) = None"
    using fallback_at_run[OF Cons.prems(1,2)] Cons.prems(3) by simp
  then have "numericFallback ((d # ds) @ rest) = numericFallback (ds @ rest)" by simp
  also have "\<dots> = numericFallback rest"
    using Cons.prems by (intro Cons.IH) simp_all
  finally show ?case .
qed

lemma numericFallback_skip:
  assumes ds: "list_all isDigit ds" and rest: "rest = [] \<or> \<not> isDigit (hd rest)"
    and none: "fallback_at (ds @ rest) = None"
  shows "numericFallback (ds @ rest) = numericFallback rest"
proof (cases ds)
  case Nil
  then show ?thesis by simp
next
  case (Cons d ds')
  from none have len: "length ds \<le> 3"
    unfolding fallback_at_run[OF ds rest] by (auto split: if_splits)
  have "numericFallback (ds @ rest) = numericFallback (ds' @ rest)"
    using none Cons by simp
  also have "\<dots> = numericFallback rest"
    using ds rest len Cons by (intro numericFallback_skip_short) simp_all
  finally show ?thesis .
qed

lemma numericFallback_run:
  assumes ds: "list_all isDigit ds" and rest: "rest = [] \<or> \<not> isDigit (hd rest)"
  shows "numericFallback (ds @ rest) =
     (case fallback_at (ds @ rest) of Some v \<Rightarrow> Some v | None \<Rightarrow> numericFallback rest)"
proof (cases "fallback_at (ds @ rest)")
  case None
  with numericFallback_skip[OF ds rest None] show ?thesis by simp
next
  case (Some v)
  then have "ds @ rest \<noteq> []" by (auto simp: fallback_at_Nil)
  then obtain c cs where "ds @ rest = c # cs" by (cases "ds @ rest") auto
  with Some show ?thesis by simp
qed

lemma split_run:
  "list_all isDigit (takeWhile isDigit s)"
  "dropWhile isDigit s = [] \<or> \<not> isDigit (hd (dropWhile isDigit s))"
  "takeWhile isDigit s @ dropWhile isDigit s = s"
proof -
  show "list_all isDigit (takeWhile isDigit s)"
    by (auto simp: list_all_iff dest: set_takeWhileD)
  show "dropWhile isDigit s = [] \<or> \<not> isDigit (hd (dropWhile isDigit s))"
    using hd_dropWhile[of isDigit s] by auto
  show "takeWhile isDigit s @ dropWhile isDigit s = s" by simp
qed

lemma numericFallback_first_match: "numericFallback s = first_match s"
proof (induction s rule: digit_runs.induct)
  case 1
  show ?case by (simp add: fallback_at_Nil first_match_def)
next
  case (2 c cs)
  show ?case
  proof (cases "isDigit c")
    case False
    then have "numericFallback (c # cs) = numericFallback cs"
      by (simp add: fallback_at_nondigit)
    moreover have "first_match (c # cs) = first_match cs"
      using False by (simp add: first_match_def)
    ultimately show ?thesis using "2.IH"(2)[OF False] by simp
  next
    case True
    define ds where "ds = takeWhile isDigit (c # cs)"
    define rest where "rest = dropWhile isDigit (c # cs)"
    define nx where "nx = (case rest of [] \<Rightarrow> None | d # _ \<Rightarrow> Some d)"
    define L where "L \<longleftrightarrow> rest \<noteq> [] \<and> isLetter (hd rest)"
    define n where "n = length ds"
    define fr where "fr = first_match rest"
    have rest_eq: "rest = dropWhile isDigit cs" using True by (simp add: rest_def)
    have run: "list_all isDigit ds" "rest = [] \<or> \<not> isDigit (hd rest)" "ds @ rest = c # cs"
      unfolding ds_def rest_def by (rule split_run)+
    have nf: "numericFallback (c # cs) =
        (case fallback_at (c # cs) of Some v \<Rightarrow> Some v | None \<Rightarrow> numericFallback rest)"
      using numericFallback_run[OF run(1,2)] unfolding run(3) .
    have fa: "fallback_at (c # cs) =
       (if n < 3 then None
        else if \<not> L then Some ds
        else if 4 \<le> n then Some (butlast ds)
        else None)"
      using fallback_at_run[OF run(1,2)] unfolding run(3) L_def n_def .
    have bl: "before_letter nx \<longleftrightarrow> L"
      unfolding nx_def L_def by (cases rest) (simp_all add: before_letter_def)
    have dr: "digit_runs (c # cs) = (ds, nx) # digit_runs rest"
      using True unfolding ds_def nx_def rest_eq by simp
    have ih: "numericFallback rest = fr"
      using "2.IH"(1)[OF True] unfolding rest_eq fr_def by simp
    have fm: "first_match (c # cs) =
        (if 3 \<le> n \<and> (L \<longrightarrow> 4 \<le> n) then Some (if L then butlast ds else ds) else fr)"
      unfolding first_match_def dr fr_def n_def by (auto simp: bl)
    have nf': "numericFallback (c # cs) =
        (if n < 3 then fr
         else if \<not> L then Some ds
         else if 4 \<le> n then Some (butlast ds)
         else fr)"
      unfolding nf fa ih by simp
    show ?thesis unfolding nf' fm by auto
  qed
qed

lemma first_hit_bare:
  "list_all (\<lambda>x. \<not> glued x) (takeWhile (\<lambda>x. \<not> bare x) xs) \<Longrightarrow>
   (case filter (\<lambda>(r, nx). 3 \<le> length r \<and> (before_letter nx \<longrightarrow> 4 \<le> length r)) xs of
      [] \<Rightarrow> None
    | (r, nx) # ys \<Rightarrow> Some (if before_letter nx then butlast r else r))
   = (case filter bare xs of [] \<Rightarrow> None | x # ys \<Rightarrow> Some (fst x))"
proof (induction xs)
  case Nil
  show ?case by simp
next
  case (Cons x xs)
  obtain r nx where x: "x = (r, nx)" by (cases x)
  show ?case
  proof (cases "bare x")
    case True
    then show ?thesis by (simp add: x bare_def)
  next
    case False
    with Cons.prems have g: "\<not> glued x" and rest: "list_all (\<lambda>x. \<not> glued x) (takeWhile (\<lambda>x. \<not> bare x) xs)"
      by simp_all
    from False g have "\<not> (3 \<le> length r \<and> (before_letter nx \<longrightarrow> 4 \<le> length r))"
      by (auto simp: x bare_def glued_def)
    then have "filter (\<lambda>(r, nx). 3 \<le> length r \<and> (before_letter nx \<longrightarrow> 4 \<le> length r)) (x # xs)
               = filter (\<lambda>(r, nx). 3 \<le> length r \<and> (before_letter nx \<longrightarrow> 4 \<le> length r)) xs"
      by (simp add: x)
    moreover from False have "filter bare (x # xs) = filter bare xs" by simp
    ultimately show ?thesis using Cons.IH[OF rest] by (simp only:)
  qed
qed

lemma first_match_bare: "no_glued_before s \<Longrightarrow> first_match s = first_bare_run s"
  unfolding no_glued_before_def first_match_def first_bare_run_def by (rule first_hit_bare)

subsection \<open>formatBytes\<close>

lemma scale_stop: "\<not> (1024 \<le> sz \<and> unitIndex < 3) \<Longrightarrow> scale sz unitIndex = (sz, unitIndex)"
  by (subst scale.simps) (auto simp: units_def numeral_3_eq_3)

lemma scale_go: "1024 \<le> sz \<Longrightarrow> unitIndex < 3 \<Longrightarrow> scale sz unitIndex = scale (sz / 1024) (unitIndex + 1)"
  by (subst scale.simps) (auto simp: units_def numeral_3_eq_3)

lemma scale_of_nat: "scale (of_nat n) 0 = (of_nat n / 1024 ^ unitOf n, unitOf n)"
proof (cases "n < 1024")
  case True
  then have "\<not> (1024 \<le> (of_nat n :: rat) \<and> (0::nat) < 3)" by simp
  from scale_stop[OF this] True show ?thesis by (simp add: unitOf_def)
next
  case a: False
  then have s1: "scale (of_nat n) 0 = scale (of_nat n / 1024) 1"
    by (subst scale_go) (simp_all add: numeral_2_eq_2 numeral_3_eq_3)
  show ?thesis
  proof (cases "n < 1024 ^ 2")
    case True
    then have "\<not> (1024 \<le> (of_nat n :: rat) / 1024 \<and> (1::nat) < 3)"
      by (simp add: le_divide_eq)
    from scale_stop[OF this] a True s1 show ?thesis by (simp add: unitOf_def)
  next
    case b: False
    then have "1024 \<le> (of_nat n :: rat) / 1024" by (simp add: le_divide_eq)
    then have s2: "scale (of_nat n / 1024) 1 = scale (of_nat n / 1024 / 1024) 2"
      by (subst scale_go) (simp_all add: numeral_2_eq_2 numeral_3_eq_3)
    show ?thesis
    proof (cases "n < 1024 ^ 3")
      case True
      then have "\<not> (1024 \<le> (of_nat n :: rat) / 1024 / 1024 \<and> (2::nat) < 3)"
        by (simp add: le_divide_eq)
      from scale_stop[OF this] a b True s1 s2 show ?thesis by (simp add: unitOf_def)
    next
      case c: False
      then have "1024 \<le> (of_nat n :: rat) / 1024 / 1024" by (simp add: le_divide_eq)
      then have s3: "scale (of_nat n / 1024 / 1024) 2 = scale (of_nat n / 1024 / 1024 / 1024) 3"
        by (subst scale_go) (simp_all add: numeral_2_eq_2 numeral_3_eq_3)
      have "scale ((of_nat n :: rat) / 1024 / 1024 / 1024) 3 = (of_nat n / 1024 / 1024 / 1024, 3)"
        by (rule scale_stop) simp
      with a b c s1 s2 s3 show ?thesis by (simp add: unitOf_def)
    qed
  qed
qed

lemma rat_quot_int:
  assumes "0 < d"
  shows "((of_nat n :: rat) / of_nat d = of_int \<lfloor>(of_nat n :: rat) / of_nat d\<rfloor>) \<longleftrightarrow> d dvd n"
proof -
  have fl: "\<lfloor>(of_nat n :: rat) / of_nat d\<rfloor> = int (n div d)"
    by (simp add: floor_divide_of_nat_eq)
  have "((of_nat n :: rat) / of_nat d = of_nat (n div d)) \<longleftrightarrow> (of_nat n :: rat) = of_nat (n div d) * of_nat d"
    using assms by (simp add: divide_eq_eq)
  also have "\<dots> \<longleftrightarrow> n = n div d * d"
    by (metis of_nat_mult of_nat_eq_iff)
  also have "\<dots> \<longleftrightarrow> d dvd n"
    by (metis dvd_div_mult_self dvd_triv_right)
  finally show ?thesis by (simp add: fl)
qed

lemma rat_quot_floor: "nat \<lfloor>(of_nat n :: rat) / of_nat d\<rfloor> = n div d"
  by (simp add: floor_divide_of_nat_eq)

lemma rat_quot_round:
  assumes "0 < d"
  shows "nat \<lfloor>(of_nat n :: rat) / of_nat d * 10 ^ p + 1 / 2\<rfloor> = (2 * n * 10 ^ p + d) div (2 * d)"
proof -
  have "(of_nat n :: rat) / of_nat d * 10 ^ p + 1 / 2 = of_nat (2 * n * 10 ^ p + d) / of_nat (2 * d)"
    using assms by (simp add: field_simps)
  then show ?thesis by (simp only: rat_quot_floor)
qed

lemma rat_quot_ge: "0 < d \<Longrightarrow> (10 \<le> (of_nat n :: rat) / of_nat d) \<longleftrightarrow> 10 * d \<le> n"
proof -
  assume "0 < d"
  then have "(10 \<le> (of_nat n :: rat) / of_nat d) \<longleftrightarrow> ((of_nat (10 * d) :: rat) \<le> of_nat n)"
    by (simp add: le_divide_eq)
  then show ?thesis by (simp only: of_nat_le_iff)
qed

lemma formatBytes_closed:
  "formatBytes n =
     (if 1024 ^ unitOf n dvd n then showNat (n div 1024 ^ unitOf n)
      else if n < 10 * 1024 ^ unitOf n
           then withPoint 2 ((200 * n + 1024 ^ unitOf n) div (2 * 1024 ^ unitOf n))
           else withPoint 1 ((20 * n + 1024 ^ unitOf n) div (2 * 1024 ^ unitOf n)))
     @ '' '' @ units ! unitOf n"
proof -
  define d :: nat where "d = 1024 ^ unitOf n"
  have d: "0 < d" by (simp add: d_def)
  have q: "(of_nat n :: rat) / 1024 ^ unitOf n = of_nat n / of_nat d" by (simp add: d_def)
  have r2: "nat \<lfloor>(of_nat n :: rat) / of_nat d * 10 ^ 2 + 1 / 2\<rfloor> = (200 * n + d) div (2 * d)"
    using rat_quot_round[OF d, of n 2] by simp
  have r1: "nat \<lfloor>(of_nat n :: rat) / of_nat d * 10 ^ 1 + 1 / 2\<rfloor> = (20 * n + d) div (2 * d)"
    using rat_quot_round[OF d, of n 1] by simp
  show ?thesis
    unfolding formatBytes_def scale_of_nat q d_def[symmetric]
    by (simp only: prod.case rat_quot_int[OF d] rat_quot_floor rat_quot_ge[OF d] toFixed_def r1 r2
          not_le if_not_P if_P split: if_splits) auto
qed

lemma showNat_lt10: "n < 10 \<Longrightarrow> showNat n = [digitChar n]"
  by (subst showNat.simps) simp

lemma showNat_ge10: "10 \<le> n \<Longrightarrow> showNat n = showNat (n div 10) @ [digitChar (n mod 10)]"
  by (subst showNat.simps) simp

lemma digitChar_0: "digitChar 0 = CHR ''0''"
  by code_simp

lemma withPoint1: "withPoint 1 m = showNat (m div 10) @ ''.'' @ [digitChar (m mod 10)]"
proof (cases "m < 10")
  case True
  then show ?thesis
    by (simp add: withPoint_def showNat_lt10 digitChar_0)
next
  case False
  then have m: "showNat m = showNat (m div 10) @ [digitChar (m mod 10)]"
    by (simp add: showNat_ge10)
  have "showNat (m div 10) \<noteq> []"
    by (subst showNat.simps) simp
  then obtain a as where "showNat (m div 10) = a # as"
    by (cases "showNat (m div 10)") auto
  then show ?thesis by (simp add: withPoint_def m Let_def)
qed

lemma withPoint2:
  "withPoint 2 m =
     showNat (m div 100) @ ''.'' @ [digitChar (m div 10 mod 10), digitChar (m mod 10)]"
proof (cases "m < 10")
  case True
  then show ?thesis
    by (simp add: withPoint_def showNat_lt10 digitChar_0 numeral_2_eq_2)
next
  case ge10: False
  then have m: "showNat m = showNat (m div 10) @ [digitChar (m mod 10)]"
    by (simp add: showNat_ge10)
  show ?thesis
  proof (cases "m < 100")
    case True
    then have lt: "m div 10 < 10" by simp
    have "m div 100 = 0" using True by simp
    moreover have "m div 10 mod 10 = m div 10" using lt by simp
    ultimately show ?thesis
      by (simp add: withPoint_def m showNat_lt10[OF lt] showNat_lt10[of 0] digitChar_0
            numeral_2_eq_2)
  next
    case False
    then have "10 \<le> m div 10" by simp
    then have m': "showNat (m div 10) = showNat (m div 10 div 10) @ [digitChar (m div 10 mod 10)]"
      by (rule showNat_ge10)
    have d: "m div 10 div 10 = m div 100" by (simp add: div_mult2_eq[symmetric])
    have "showNat (m div 100) \<noteq> []"
      by (subst showNat.simps) simp
    then obtain a as where "showNat (m div 100) = a # as"
      by (cases "showNat (m div 100)") auto
    then show ?thesis by (simp add: withPoint_def m m' d Let_def numeral_2_eq_2)
  qed
qed

lemma formatBytes_1536: "formatBytes 1536 = ''1.50 KB''"
proof -
  have "formatBytes 1536 = withPoint 2 150 @ '' '' @ units ! 1"
    by (simp add: formatBytes_closed unitOf_def)
  also have "\<dots> = ''1.50 KB''" by code_simp
  finally show ?thesis .
qed

lemma formatBytes_0: "formatBytes 0 = ''0 B''"
proof -
  have "formatBytes 0 = showNat 0 @ '' '' @ units ! 0"
    by (simp add: formatBytes_closed unitOf_def)
  also have "\<dots> = ''0 B''" by code_simp
  finally show ?thesis .
qed

subsection \<open>Projections\<close>

lemma createJob_range:
  "createJob P now newId u sid rsz s = (Inr pj, s') \<Longrightarrow> \<exists>job. pj = toPublicJob job"
  by (cases "assertSessionId sid")
     (auto simp: createJob_def Let_def split: if_splits)

lemma getJob_range:
  "fst (getJob now sid jobId s) = Inr (Some pj) \<Longrightarrow> \<exists>job. pj = toPublicJob job"
  by (cases "assertSessionId sid")
     (auto simp: getJob_def Let_def split: option.splits if_splits)

lemma listJobs_range:
  assumes "fst (listJobs now sid s) = Inr res" "pj \<in> set res"
  shows "\<exists>job. pj = toPublicJob job"
proof (cases "assertSessionId sid")
  case (Inl e)
  with assms show ?thesis by (simp add: listJobs_def)
next
  case (Inr vs)
  show ?thesis
  proof (cases "map_of (sessionJobs (cleanupExpiredJobs now s)) vs")
    case None
    with assms Inr show ?thesis by (simp add: listJobs_def)
  next
    case (Some order)
    show ?thesis
    proof (cases "order = []")
      case True
      with assms Inr Some show ?thesis by (simp add: listJobs_def)
    next
      case False
      with assms(1) Inr Some
      have "res = map (\<lambda>jobId. toPublicJob (the (map_of (jobs (cleanupExpiredJobs now s)) jobId)))
                   (filter (\<lambda>jobId. map_of (jobs (cleanupExpiredJobs now s)) jobId \<noteq> None) order)"
        by (simp add: listJobs_def Let_def)
      with assms(2) show ?thesis by auto
    qed
  qed
qed

section \<open>The claims\<close>

text \<open>
  C1, as stated: every successful \<^verbatim>\<open>createJob\<close> returns a projection with status
  \<open>Queued\<close> and progress 0, also when the worker is idle and the pending queue empty.
  That fails: \<^verbatim>\<open>createJob\<close> calls \<^verbatim>\<open>processQueue()\<close> before it builds the projection, and
  with an idle worker and an empty queue that call takes the new job and runs the start
  of \<^verbatim>\<open>runJob\<close>. On the initial state the projection has status \<open>Processing\<close> and
  progress 0.01.
\<close>

theorem C1_counterexample:
  "processingJob init = None \<and> queue init = [] \<and>
   map_sum id p_status (fst (createJob rejectURL 0 ''1'' ''idx=123'' ''sess'' None init))
     = Inr Processing \<and>
   map_sum id p_progress (fst (createJob rejectURL 0 ''1'' ''idx=123'' ''sess'' None init))
     = Inr (1 / 100)"
  by code_simp

text \<open>
  C1, amended: a successful \<^verbatim>\<open>createJob\<close> returns at once, with the projection of the
  new job as it stands in the registry when the call returns. That is status \<open>Queued\<close>
  and progress 0, or status \<open>Processing\<close> and progress 0.01; it is the first whenever a
  job is running, and the second whenever no job is running and the pending queue is
  empty. The projection never shows a later stage of the execution.
\<close>

theorem C1_createJob_projection:
  assumes "reachable P s" and "event_ok s (CreateJob now newId u sid rsz)"
    and "createJob P now newId u sid rsz s = (Inr pj, s')"
  shows "(\<exists>live. map_of (jobs s') newId = Some live \<and> pj = toPublicJob live) \<and>
         ((p_status pj = Queued \<and> p_progress pj = 0) \<or>
          (p_status pj = Processing \<and> p_progress pj = 1 / 100)) \<and>
         (processingJob s \<noteq> None \<longrightarrow> p_status pj = Queued \<and> p_progress pj = 0) \<and>
         (processingJob s = None \<and> queue s = [] \<longrightarrow>
            p_status pj = Processing \<and> p_progress pj = 1 / 100)"
proof -
  from assms(2) have "newId \<noteq> []" "map_of (jobs s) newId = None" by simp_all
  from createJob_result[OF reachable_inv[OF assms(1)] this assms(3)] show ?thesis .
qed

theorem C1_createJob_projection_witness:
  "reachable rejectURL demo1 \<and>
   event_ok demo1 (CreateJob 7 ''2'' ''idx=123'' ''sess'' None) \<and>
   \<not> isl (fst (createJob rejectURL 7 ''2'' ''idx=123'' ''sess'' None demo1)) \<and>
   processingJob demo1 = Some ''1'' \<and>
   p_status (projr (fst (createJob rejectURL 7 ''2'' ''idx=123'' ''sess'' None demo1))) = Queued \<and>
   p_progress (projr (fst (createJob rejectURL 7 ''2'' ''idx=123'' ''sess'' None demo1))) = 0"
proof -
  have ok: "event_ok demo1 (CreateJob 7 ''2'' ''idx=123'' ''sess'' None)" by code_simp
  have r: "\<not> isl (fst (createJob rejectURL 7 ''2'' ''idx=123'' ''sess'' None demo1))"
    by code_simp
  have m: "processingJob demo1 = Some ''1''" by code_simp
  from C1_createJob_projection[OF reachable_demo1 ok result_Inr[OF r]] m
  show ?thesis using reachable_demo1 ok r by simp
qed

text \<open>
  C2: in every reachable state of the queue service at most one job of the registry has
  status \<open>Processing\<close>, and it is the job \<open>processingJob\<close> names. A step makes a job
  \<open>Processing\<close> only from a state where \<open>processingJob\<close> is empty, and sets it to that
  job; and \<open>processingJob\<close> never passes from one job to another without being cleared
  in between.
\<close>

theorem C2_single_processing:
  assumes "reachable P s"
  shows "length (filter (\<lambda>(k, j). status j = Processing) (jobs s)) \<le> 1 \<and>
    (\<forall>k j. map_of (jobs s) k = Some j \<longrightarrow> status j = Processing \<longrightarrow> processingJob s = Some k) \<and>
    (\<forall>e k j. event_ok s e \<longrightarrow> map_of (jobs (step P e s)) k = Some j \<longrightarrow> status j = Processing \<longrightarrow>
       (\<exists>j0. map_of (jobs s) k = Some j0 \<and> status j0 = Processing) \<or>
       (processingJob s = None \<and> processingJob (step P e s) = Some k)) \<and>
    (\<forall>e k k'. event_ok s e \<longrightarrow> processingJob s = Some k \<longrightarrow>
       processingJob (step P e s) = Some k' \<longrightarrow> k' = k)"
proof -
  from assms have i: "inv s" by (rule reachable_inv)
  have 1: "length (filter (\<lambda>(k, j). status j = Processing) (jobs s)) \<le> 1"
    using i by (rule inv_count)
  have 2: "processingJob s = Some k" if "map_of (jobs s) k = Some j" "status j = Processing" for k j
    using i that by (rule inv_processingD)
  have 4: "k' = k"
    if "event_ok s e" "processingJob s = Some k" "processingJob (step P e s) = Some k'" for e k k'
    using marker_step[OF i that(2), of P e] that(3) by auto
  have 3: "(\<exists>j0. map_of (jobs s) k = Some j0 \<and> status j0 = Processing) \<or>
       (processingJob s = None \<and> processingJob (step P e s) = Some k)"
    if ok: "event_ok s e" and j: "map_of (jobs (step P e s)) k = Some j" "status j = Processing"
    for e k j
  proof -
    have i': "inv (step P e s)" using i ok by (rule inv_step)
    have m': "processingJob (step P e s) = Some k" using i' j by (rule inv_processingD)
    show ?thesis
    proof (cases "processingJob s")
      case None
      with m' show ?thesis by simp
    next
      case (Some k0)
      from 4[OF ok Some m'] have "k0 = k" by simp
      with inv_markerD[OF i Some] show ?thesis by simp
    qed
  qed
  from 1 2 3 4 show ?thesis by blast
qed

theorem C2_single_processing_witness:
  "reachable rejectURL demo15 \<and>
   length (filter (\<lambda>(k, j). status j = Processing) (jobs demo15)) \<le> 1 \<and>
   map_option status (map_of (jobs demo15) ''1'') = Some Processing \<and>
   processingJob demo15 = Some ''1''"
proof -
  have "map_option status (map_of (jobs demo15) ''1'') = Some Processing" by code_simp
  moreover have "processingJob demo15 = Some ''1''" by code_simp
  ultimately show ?thesis
    using C2_single_processing[OF reachable_demo15] reachable_demo15 by blast
qed




text \<open>
  C4: in every step of the service from a reachable state, a job that is in the
  registry before and after either keeps its status, or goes from \<open>Queued\<close> to
  \<open>Processing\<close>, or goes from \<open>Processing\<close> to \<open>Completed\<close> or \<open>Failed\<close>. So no
  step returns a job to \<open>Queued\<close>, none makes a job \<open>Processing\<close> a second time,
  and none changes the status of a \<open>Completed\<close> or \<open>Failed\<close> job. A job that enters
  the registry in the step is \<open>Queued\<close>, or \<open>Processing\<close> when the worker has taken
  it in the same step.
\<close>

theorem C4_status_transitions:
  assumes "reachable P s" and "event_ok s e" and "map_of (jobs (step P e s)) k = Some b"
  shows "(\<forall>a. map_of (jobs s) k = Some a \<longrightarrow>
            status b = status a \<or> (status a = Queued \<and> status b = Processing) \<or>
            (status a = Processing \<and> (status b = Completed \<or> status b = Failed))) \<and>
         (map_of (jobs s) k = None \<longrightarrow> status b = Queued \<or> status b = Processing)"
  using step_transition[OF reachable_inv[OF assms(1)] assms(2) _ assms(3)]
    step_new_job[OF reachable_inv[OF assms(1)] assms(2) _ assms(3)]
  by blast

theorem C4_status_transitions_witness:
  "reachable rejectURL demo1 \<and> event_ok demo1 (Fail 5 None) \<and>
   status (the (map_of (jobs demo1) ''1'')) = Processing \<and>
   status (the (map_of (jobs (step rejectURL (Fail 5 None) demo1)) ''1'')) = Failed \<and>
   (status (the (map_of (jobs (step rejectURL (Fail 5 None) demo1)) ''1''))
      = status (the (map_of (jobs demo1) ''1'')) \<or>
    (status (the (map_of (jobs demo1) ''1'')) = Queued \<and>
     status (the (map_of (jobs (step rejectURL (Fail 5 None) demo1)) ''1'')) = Processing) \<or>
    (status (the (map_of (jobs demo1) ''1'')) = Processing \<and>
     (status (the (map_of (jobs (step rejectURL (Fail 5 None) demo1)) ''1'')) = Completed \<or>
      status (the (map_of (jobs (step rejectURL (Fail 5 None) demo1)) ''1'')) = Failed)))"
proof -
  have sa: "map_option status (map_of (jobs demo1) ''1'') = Some Processing" by code_simp
  have sb: "map_option status (map_of (jobs (step rejectURL (Fail 5 None) demo1)) ''1'')
              = Some Failed"
    by code_simp
  obtain a where a: "map_of (jobs demo1) ''1'' = Some a" "status a = Processing"
    using sa by (cases "map_of (jobs demo1) ''1''") auto
  obtain b where b: "map_of (jobs (step rejectURL (Fail 5 None) demo1)) ''1'' = Some b"
      "status b = Failed"
    using sb by (cases "map_of (jobs (step rejectURL (Fail 5 None) demo1)) ''1''") auto
  have ok: "event_ok demo1 (Fail 5 None)" by simp
  from C4_status_transitions[OF reachable_demo1 ok b(1)] a(1)
  have "status b = status a \<or> (status a = Queued \<and> status b = Processing) \<or>
            (status a = Processing \<and> (status b = Completed \<or> status b = Failed))"
    by blast
  with a b reachable_demo1 ok show ?thesis by simp
qed

text \<open>
  C5: let a job be in the registry of a reachable state with a terminal status
  (\<open>Completed\<close> or \<open>Failed\<close>) and an \<open>updatedAt\<close> more than 30 minutes before \<open>now\<close>.
  Then every call of \<^verbatim>\<open>listJobs\<close>, \<^verbatim>\<open>getJob\<close>, \<^verbatim>\<open>getJobDownloadData\<close> or \<^verbatim>\<open>createJob\<close> at
  \<open>now\<close> that passes the session check (the router calls the queue with no other
  session id, and a call that fails the check runs no cleanup) leaves the registry
  without it, \<^verbatim>\<open>getJob\<close> answers none for it, and \<^verbatim>\<open>listJobs\<close> does not list it. A job
  that is \<open>Queued\<close> or \<open>Processing\<close> survives the TTL cleanup whatever its age. And a
  job that is out of the registry stays out, and out of every \<^verbatim>\<open>getJob\<close> and
  \<^verbatim>\<open>listJobs\<close> result, through every run that creates no job under its id.
\<close>

theorem C5_ttl_cleanup:
  assumes "reachable P s" and "map_of (jobs s) k = Some j" and "assertSessionId sid = Inr vs"
  shows
    "((status j = Completed \<or> status j = Failed) \<and> now - updatedAt j > 30 * 60 * 1000 \<longrightarrow>
        map_of (jobs (snd (listJobs now sid s))) k = None \<and>
        map_of (jobs (snd (getJob now sid jobId s))) k = None \<and>
        map_of (jobs (snd (getJobDownloadData now sid jobId s))) k = None \<and>
        (event_ok s (CreateJob now newId u sid rsz) \<longrightarrow>
           map_of (jobs (snd (createJob P now newId u sid rsz s))) k = None) \<and>
        fst (getJob now sid k s) = Inr None \<and>
        (\<forall>res. fst (listJobs now sid s) = Inr res \<longrightarrow> k \<notin> p_id ` set res)) \<and>
     ((status j = Queued \<or> status j = Processing) \<longrightarrow>
        map_of (jobs (cleanupExpiredJobs now s)) k = Some j) \<and>
     (\<forall>s1 es now1 sid1.
        reachable P s1 \<and> map_of (jobs s1) k = None \<and> events_ok P es s1 \<and>
        (\<forall>t n u1 c r. CreateJob t n u1 c r \<in> set es \<longrightarrow> n \<noteq> k) \<longrightarrow>
        map_of (jobs (run P es s1)) k = None \<and>
        (\<forall>pj. fst (getJob now1 sid1 k (run P es s1)) \<noteq> Inr (Some pj)) \<and>
        (\<forall>res. fst (listJobs now1 sid1 (run P es s1)) = Inr res \<longrightarrow> k \<notin> p_id ` set res))"
proof -
  from assms(1) have i: "inv s" by (rule reachable_inv)
  have 1: "map_of (jobs (snd (listJobs now sid s))) k = None \<and>
        map_of (jobs (snd (getJob now sid jobId s))) k = None \<and>
        map_of (jobs (snd (getJobDownloadData now sid jobId s))) k = None \<and>
        (event_ok s (CreateJob now newId u sid rsz) \<longrightarrow>
           map_of (jobs (snd (createJob P now newId u sid rsz s))) k = None) \<and>
        fst (getJob now sid k s) = Inr None \<and>
        (\<forall>res. fst (listJobs now sid s) = Inr res \<longrightarrow> k \<notin> p_id ` set res)"
    if "(status j = Completed \<or> status j = Failed) \<and> now - updatedAt j > 30 * 60 * 1000"
  proof -
    from that have e: "expired now j" by (simp add: expired_def JOB_TTL_MS_def)
    from expired_job_removed[OF i assms(2,3) e] show ?thesis by blast
  qed
  have 2: "map_of (jobs (cleanupExpiredJobs now s)) k = Some j"
    if "status j = Queued \<or> status j = Processing"
  proof -
    from that have "\<not> expired now j" by (auto simp: expired_def)
    with inv_distinct[OF i] assms(2) show ?thesis by (rule cleanup_keeps)
  qed
  have 3: "map_of (jobs (run P es s1)) k = None \<and>
        (\<forall>pj. fst (getJob now1 sid1 k (run P es s1)) \<noteq> Inr (Some pj)) \<and>
        (\<forall>res. fst (listJobs now1 sid1 (run P es s1)) = Inr res \<longrightarrow> k \<notin> p_id ` set res)"
    if h: "reachable P s1 \<and> map_of (jobs s1) k = None \<and> events_ok P es s1 \<and>
        (\<forall>t n u1 c r. CreateJob t n u1 c r \<in> set es \<longrightarrow> n \<noteq> k)"
    for s1 es now1 sid1
  proof -
    from h have r: "reachable P s1" and a: "map_of (jobs s1) k = None"
      and ok: "events_ok P es s1"
      and n: "\<And>t n u1 c r. CreateJob t n u1 c r \<in> set es \<Longrightarrow> n \<noteq> k"
      by blast+
    have "map_of (jobs (run P es s1)) k = None"
      using r a ok n by (rule absent_job_stays_absent(1))
    moreover have "fst (getJob now1 sid1 k (run P es s1)) \<noteq> Inr (Some pj)" for pj
      using r a ok n by (rule absent_job_stays_absent(2))
    moreover have "k \<notin> p_id ` set res"
      if "fst (listJobs now1 sid1 (run P es s1)) = Inr res" for res
      using r a ok n that by (rule absent_job_stays_absent(3))
    ultimately show ?thesis by blast
  qed
  from 1 2 3 show ?thesis by blast
qed

theorem C5_ttl_cleanup_witness:
  "reachable rejectURL demoFailed \<and>
   map_option status (map_of (jobs demoFailed) ''1'') = Some Failed \<and>
   map_option updatedAt (map_of (jobs demoFailed) ''1'') = Some 5 \<and>
   assertSessionId ''sess'' = Inr ''sess'' \<and>
   map_of (jobs (snd (listJobs 1800006 ''sess'' demoFailed))) ''1'' = None \<and>
   fst (getJob 1800006 ''sess'' ''1'' demoFailed) = Inr None"
proof -
  have st: "map_option status (map_of (jobs demoFailed) ''1'') = Some Failed" by code_simp
  have up: "map_option updatedAt (map_of (jobs demoFailed) ''1'') = Some 5" by code_simp
  have v: "assertSessionId ''sess'' = Inr ''sess''" by code_simp
  obtain j where j: "map_of (jobs demoFailed) ''1'' = Some j" "status j = Failed" "updatedAt j = 5"
    using st up by (cases "map_of (jobs demoFailed) ''1''") auto
  from C5_ttl_cleanup[OF reachable_demoFailed j(1) v, of 1800006] j(2,3)
  have "map_of (jobs (snd (listJobs 1800006 ''sess'' demoFailed))) ''1'' = None"
    and "fst (getJob 1800006 ''sess'' ''1'' demoFailed) = Inr None"
    by simp_all
  with reachable_demoFailed st up v show ?thesis by blast
qed

text \<open>
  C6: from a reachable state, \<^verbatim>\<open>getJobDownloadData\<close> with a session id that passes
  the session check runs the TTL cleanup and changes nothing else, and its result is
  decided by the job the cleanup leaves under the id: the 404 error \<open>JobNotFound\<close>
  when there is none (no such job, or a terminal job older than 30 minutes, which the
  cleanup has just removed) and, with the same error, when the job is of another
  session; the 409 error \<open>NotReady\<close>, and no bytes, when the job is of this session
  but not \<open>Completed\<close> or without an archive; and the archive otherwise. The cleanup
  takes out of the registry the jobs that are \<open>expired\<close> and no others, and changes
  no job. A session id that fails the check gives the 400 error and leaves the state
  as it is.
\<close>

theorem C6_download:
  assumes "reachable P s"
  shows "getJobDownloadData now sid jobId s =
     (case assertSessionId sid of
        Inl e \<Rightarrow> (Inl SessionRequired, s)
      | Inr vs \<Rightarrow>
          (case map_of (jobs s) jobId of
             None \<Rightarrow> Inl JobNotFound
           | Some j \<Rightarrow>
               if sessionId j \<noteq> vs \<or> expired now j then Inl JobNotFound
               else if status j \<noteq> Completed \<or> job_zip j = None then Inl NotReady
               else Inr (the (job_zip j)),
           cleanupExpiredJobs now s)) \<and>
     (\<forall>k. map_of (jobs (cleanupExpiredJobs now s)) k =
        (case map_of (jobs s) k of
           None \<Rightarrow> None
         | Some j \<Rightarrow> if expired now j then None else Some j)) \<and>
     statusCode SessionRequired = 400 \<and> statusCode JobNotFound = 404 \<and> statusCode NotReady = 409"
  using getJobDownloadData_closed[OF reachable_inv[OF assms]]
    cleanup_map_of[OF reachable_inv[OF assms]]
  by simp

theorem C6_download_witness:
  "reachable rejectURL demoCompleted \<and>
   getJobDownloadData 6 ''sess'' ''1'' demoCompleted = (Inr demoZip, cleanupExpiredJobs 6 demoCompleted) \<and>
   getJobDownloadData 6 ''other'' ''1'' demoCompleted
     = (Inl JobNotFound, cleanupExpiredJobs 6 demoCompleted) \<and>
   getJobDownloadData 6 ''sess'' ''2'' demoCompleted
     = (Inl JobNotFound, cleanupExpiredJobs 6 demoCompleted) \<and>
   fst (getJobDownloadData 6 ''sess'' ''1'' demoFailed) = Inl NotReady"
proof -
  have v: "assertSessionId ''sess'' = Inr ''sess''" "assertSessionId ''other'' = Inr ''other''"
    by code_simp+
  have a: "map_of (jobs demoCompleted) ''2'' = None" by code_simp
  have sj: "map_option sessionId (map_of (jobs demoCompleted) ''1'') = Some ''sess''" by code_simp
  have st: "map_option status (map_of (jobs demoCompleted) ''1'') = Some Completed" by code_simp
  have up: "map_option updatedAt (map_of (jobs demoCompleted) ''1'') = Some 5" by code_simp
  have z: "map_option job_zip (map_of (jobs demoCompleted) ''1'') = Some (Some demoZip)"
    by code_simp
  obtain j where j: "map_of (jobs demoCompleted) ''1'' = Some j" "sessionId j = ''sess''"
      "status j = Completed" "updatedAt j = 5" "job_zip j = Some demoZip"
    using sj st up z by (cases "map_of (jobs demoCompleted) ''1''") auto
  have ne: "\<not> expired 6 j" using j by (simp add: expired_def JOB_TTL_MS_def)
  have f: "fst (getJobDownloadData 6 ''sess'' ''1'' demoFailed) = Inl NotReady" by code_simp
  have 1: "getJobDownloadData 6 ''sess'' ''1'' demoCompleted
             = (Inr demoZip, cleanupExpiredJobs 6 demoCompleted)"
    using C6_download[OF reachable_demoCompleted, of 6 "''sess''" "''1''"] v j ne by simp
  have 2: "getJobDownloadData 6 ''other'' ''1'' demoCompleted
             = (Inl JobNotFound, cleanupExpiredJobs 6 demoCompleted)"
    using C6_download[OF reachable_demoCompleted, of 6 "''other''" "''1''"] v j by simp
  have 3: "getJobDownloadData 6 ''sess'' ''2'' demoCompleted
             = (Inl JobNotFound, cleanupExpiredJobs 6 demoCompleted)"
    using C6_download[OF reachable_demoCompleted, of 6 "''sess''" "''2''"] v a by simp
  from reachable_demoCompleted 1 2 3 f show ?thesis by blast
qed

text \<open>
  C7, as stated: when the key=value step and the URL step both fail, the fallback
  returns the last run of three or more digits that no letter follows. That fails:
  \<^verbatim>\<open>String.prototype.match\<close> without the \<^verbatim>\<open>g\<close> flag returns the leftmost match. For
  \<^verbatim>\<open>abc 123 456\<close> no key matches, \<^verbatim>\<open>new URL("https://abc 123 456")\<close> throws (a host has
  no space; \<open>rejectURL\<close> stands for the parser here), and the result is \<^verbatim>\<open>123\<close>, where
  the last such run is \<^verbatim>\<open>456\<close>.
\<close>

theorem C7_counterexample:
  "queryMatch (trim ''abc 123 456'') = None \<and>
   url_step rejectURL (trim ''abc 123 456'') = None \<and>
   extractPackageId rejectURL ''abc 123 456'' = Some ''123'' \<and>
   last_bare_run (trim ''abc 123 456'') = Some ''456''"
  by code_simp

text \<open>
  C7, amended: when the key=value step and the URL step both fail on the trimmed
  input, \<^verbatim>\<open>extractPackageId\<close> returns the first bare run of it, the leftmost maximal
  run of three or more digits that no letter follows, and none when it has no bare run,
  as for \<^verbatim>\<open>no digits here\<close>. This is stated for the inputs in which no run of four or
  more digits with a letter after it stands to the left of the first bare run; what
  the pattern does at such a run is left out.
\<close>

theorem C7_fallback:
  assumes "queryMatch (trim input) = None" and "url_step parseURL (trim input) = None"
    and "no_glued_before (trim input)"
  shows "extractPackageId parseURL input = first_bare_run (trim input)"
proof (cases "input = [] \<or> trim input = []")
  case True
  then have "trim input = []" by (auto simp: trim_def)
  with True show ?thesis by (auto simp: extractPackageId_def first_bare_run_def)
next
  case False
  then show ?thesis
    using assms
    by (simp add: extractPackageId_def Let_def numericFallback_first_match first_match_bare)
qed

theorem C7_fallback_witness:
  "queryMatch (trim ''no digits here'') = None \<and>
   url_step rejectURL (trim ''no digits here'') = None \<and>
   no_glued_before (trim ''no digits here'') \<and>
   extractPackageId rejectURL ''no digits here'' = None \<and>
   queryMatch (trim ''v12 123a 4567 890'') = None \<and>
   url_step rejectURL (trim ''v12 123a 4567 890'') = None \<and>
   no_glued_before (trim ''v12 123a 4567 890'') \<and>
   extractPackageId rejectURL ''v12 123a 4567 890'' = Some ''4567''"
proof -
  have q: "queryMatch (trim ''no digits here'') = None" by code_simp
  have u: "url_step rejectURL (trim ''no digits here'') = None" by code_simp
  have g: "no_glued_before (trim ''no digits here'')" by code_simp
  have f: "first_bare_run (trim ''no digits here'') = None" by code_simp
  have q2: "queryMatch (trim ''v12 123a 4567 890'') = None" by code_simp
  have u2: "url_step rejectURL (trim ''v12 123a 4567 890'') = None" by code_simp
  have g2: "no_glued_before (trim ''v12 123a 4567 890'')" by code_simp
  have f2: "first_bare_run (trim ''v12 123a 4567 890'') = Some ''4567''" by code_simp
  from C7_fallback[OF q u g] C7_fallback[OF q2 u2 g2] f f2 q u g q2 u2 g2 show ?thesis by simp
qed

text \<open>
  C8, as stated: \<^verbatim>\<open>formatBytes\<close> renders the scaled value with one decimal place, or
  none when it is exact, and \<^verbatim>\<open>formatBytes(1536)\<close> is \<^verbatim>\<open>1.5 KB\<close>. That fails: the code
  calls \<^verbatim>\<open>toFixed(size >= 10 ? 1 : 2)\<close>, so 1536 bytes are \<^verbatim>\<open>1.50 KB\<close>.
\<close>

theorem C8_counterexample:
  "formatBytes 1536 = ''1.50 KB'' \<and> formatBytes 1536 \<noteq> ''1.5 KB''"
  by (simp add: formatBytes_1536)

text \<open>
  C8, amended: for every byte count \<open>n\<close> below \<open>2^53\<close> (the integers a Number holds one
  by one), \<^verbatim>\<open>formatBytes\<close> divides by 1024 until the value is below 1024 or the unit is
  GB, and renders the value \<open>n / 1024^k\<close> with no decimal place when it is a whole
  number, and otherwise rounded (a half goes up) to two decimal places when it is below
  10 and to one decimal place from 10 on, followed by a space and the unit. So
  \<^verbatim>\<open>formatBytes(0)\<close> is \<^verbatim>\<open>0 B\<close> and \<^verbatim>\<open>formatBytes(1536)\<close> is \<^verbatim>\<open>1.50 KB\<close>.
\<close>

theorem C8_formatBytes:
  assumes "n < 2 ^ 53"
  shows "formatBytes n =
     (let k = unitOf n; d = 1024 ^ k
      in (if d dvd n then showNat (n div d)
          else if n < 10 * d
               then (let m = (200 * n + d) div (2 * d)
                     in showNat (m div 100) @ ''.'' @
                        [digitChar (m div 10 mod 10), digitChar (m mod 10)])
               else (let m = (20 * n + d) div (2 * d)
                     in showNat (m div 10) @ ''.'' @ [digitChar (m mod 10)]))
         @ '' '' @ units ! k) \<and>
   formatBytes 0 = ''0 B'' \<and> formatBytes 1536 = ''1.50 KB''"
proof -
  have "formatBytes n =
     (let k = unitOf n; d = 1024 ^ k
      in (if d dvd n then showNat (n div d)
          else if n < 10 * d
               then (let m = (200 * n + d) div (2 * d)
                     in showNat (m div 100) @ ''.'' @
                        [digitChar (m div 10 mod 10), digitChar (m mod 10)])
               else (let m = (20 * n + d) div (2 * d)
                     in showNat (m div 10) @ ''.'' @ [digitChar (m mod 10)]))
         @ '' '' @ units ! k)"
    by (simp only: formatBytes_closed withPoint1 withPoint2 Let_def)
  with formatBytes_0 formatBytes_1536 show ?thesis by blast
qed

theorem C8_formatBytes_witness:
  "(10753 :: nat) < 2 ^ 53 \<and> formatBytes 10753 = ''10.5 KB''"
proof -
  have b: "(10753 :: nat) < 2 ^ 53" by simp
  have "formatBytes 10753 = showNat 10 @ ''.'' @ [digitChar 5] @ '' '' @ units ! 1"
    using C8_formatBytes[OF b] by (simp add: unitOf_def Let_def)
  also have "\<dots> = ''10.5 KB''" by code_simp
  finally show ?thesis using b by simp
qed

text \<open>
  C9, at the input where the code leaves the claim: \<^verbatim>\<open>sanitizeFilename\<close> is called
  with its default fallback \<^verbatim>\<open>untitled\<close>, so it never returns the empty string, the
  alternative \<^verbatim>\<open>dccon\<close> of \<^verbatim>\<open>buildArchiveFilename\<close> is never taken, and a missing or
  empty title gives \<^verbatim>\<open>untitled_42.zip\<close>. With a title the claim's example holds.
\<close>

theorem C9_untitled:
  "sanitizeFilename title ''untitled'' \<noteq> [] \<and>
   buildArchiveFilename None (Some ''42'') = ''untitled_42.zip'' \<and>
   buildArchiveFilename (Some []) (Some ''42'') = ''untitled_42.zip'' \<and>
   buildArchiveFilename (Some ''My:Pack*'') (Some ''42'') = ''My Pack_42.zip''"
proof -
  have "sanitizeFilename title ''untitled'' \<noteq> []"
    by (simp add: sanitizeFilename_def Let_def)
  moreover have "buildArchiveFilename None (Some ''42'') = ''untitled_42.zip''" by code_simp
  moreover have "buildArchiveFilename (Some []) (Some ''42'') = ''untitled_42.zip''" by code_simp
  moreover have "buildArchiveFilename (Some ''My:Pack*'') (Some ''42'') = ''My Pack_42.zip''"
    by code_simp
  ultimately show ?thesis by blast
qed

text \<open>
  C10: the projection \<^verbatim>\<open>toPublicJob\<close> does not read the job's \<^verbatim>\<open>sessionId\<close>, so two
  jobs that differ in nothing else have the same projection, and it does not read the
  bytes of the archive, of which it gives the file name, the size and the size label.
  An item's bytes reach the projection in its \<^verbatim>\<open>dataUrl\<close> alone, which is none when
  the buffer or the MIME type is missing (or the MIME type empty) and otherwise the
  \<^verbatim>\<open>data:\<close> URI of the MIME type and the base64 text of the bytes. Every value that
  \<^verbatim>\<open>createJob\<close>, \<^verbatim>\<open>listJobs\<close> and \<^verbatim>\<open>getJob\<close> return is such a projection. (The record
  type \<open>publicJob\<close> has no field for a session id and none of a byte type.)
\<close>

theorem C10_projection:
  "toPublicJob (j\<lparr>sessionId := a\<rparr>) = toPublicJob j \<and>
   (j1\<lparr>sessionId := a\<rparr> = j2\<lparr>sessionId := a\<rparr> \<longrightarrow> toPublicJob j1 = toPublicJob j2) \<and>
   toPublicJob (j\<lparr>job_zip := Some (z\<lparr>zip_buffer := b\<rparr>)\<rparr>) = toPublicJob (j\<lparr>job_zip := Some z\<rparr>) \<and>
   p_archive (toPublicJob j) =
     map_option (\<lambda>z. \<lparr>ar_filename = zip_filename z, ar_size = zip_size z,
                        ar_sizeLabel = formatBytes (zip_size z)\<rparr>) (job_zip j) \<and>
   p_items (toPublicJob j) = map summariseItem (items j) \<and>
   summariseItem (x\<lparr>it_buffer := buf\<rparr>) = (summariseItem x)\<lparr>pi_dataUrl := dataUrl buf (it_mimeType x)\<rparr> \<and>
   pi_dataUrl (summariseItem x) =
     (case it_buffer x of
        None \<Rightarrow> None
      | Some bs \<Rightarrow>
          (case it_mimeType x of
             None \<Rightarrow> None
           | Some m \<Rightarrow> if m = [] then None else Some (''data:'' @ m @ '';base64,'' @ base64 bs))) \<and>
   (createJob P now newId u sid rsz s = (Inr pj, s') \<longrightarrow> (\<exists>job. pj = toPublicJob job)) \<and>
   (fst (listJobs now sid s) = Inr res \<longrightarrow> (\<forall>p \<in> set res. \<exists>job. p = toPublicJob job)) \<and>
   (fst (getJob now sid jobId s) = Inr (Some pj) \<longrightarrow> (\<exists>job. pj = toPublicJob job))"
proof -
  have 1: "toPublicJob (j\<lparr>sessionId := a\<rparr>) = toPublicJob j" for j
    by (simp add: toPublicJob_def)
  have 2: "toPublicJob j1 = toPublicJob j2" if "j1\<lparr>sessionId := a\<rparr> = j2\<lparr>sessionId := a\<rparr>"
  proof -
    have "toPublicJob j1 = toPublicJob (j1\<lparr>sessionId := a\<rparr>)" by (simp only: 1)
    also have "\<dots> = toPublicJob (j2\<lparr>sessionId := a\<rparr>)" by (simp only: that)
    also have "\<dots> = toPublicJob j2" by (simp only: 1)
    finally show ?thesis .
  qed
  have 3: "toPublicJob (j\<lparr>job_zip := Some (z\<lparr>zip_buffer := b\<rparr>)\<rparr>) = toPublicJob (j\<lparr>job_zip := Some z\<rparr>)"
    by (simp add: toPublicJob_def)
  have 4: "p_archive (toPublicJob j) =
     map_option (\<lambda>z. \<lparr>ar_filename = zip_filename z, ar_size = zip_size z,
                        ar_sizeLabel = formatBytes (zip_size z)\<rparr>) (job_zip j)"
    by (cases "job_zip j") (simp_all add: toPublicJob_def)
  have 5: "p_items (toPublicJob j) = map summariseItem (items j)"
    by (simp add: toPublicJob_def summariseItems_def)
  have 6: "summariseItem (x\<lparr>it_buffer := buf\<rparr>)
             = (summariseItem x)\<lparr>pi_dataUrl := dataUrl buf (it_mimeType x)\<rparr>"
    by (simp add: summariseItem_def)
  have 7: "pi_dataUrl (summariseItem x) =
     (case it_buffer x of
        None \<Rightarrow> None
      | Some bs \<Rightarrow>
          (case it_mimeType x of
             None \<Rightarrow> None
           | Some m \<Rightarrow> if m = [] then None else Some (''data:'' @ m @ '';base64,'' @ base64 bs)))"
    by (simp add: summariseItem_def dataUrl_def truthy_def split: option.splits)
  from 1 2 3 4 5 6 7 createJob_range[of P now newId u sid rsz s pj s']
    listJobs_range[of now sid s res] getJob_range[of now sid jobId s pj]
  show ?thesis by blast
qed

theorem C10_projection_witness:
  "demoJob\<lparr>sessionId := ''x''\<rparr> = (demoJob\<lparr>sessionId := ''other''\<rparr>)\<lparr>sessionId := ''x''\<rparr> \<and>
   toPublicJob demoJob = toPublicJob (demoJob\<lparr>sessionId := ''other''\<rparr>) \<and>
   map pi_dataUrl (p_items (toPublicJob demoJob)) = [Some ''data:image/png;base64,TWFu''] \<and>
   p_archive (toPublicJob demoJob)
     = Some \<lparr>ar_filename = ''untitled_123.zip'', ar_size = 2, ar_sizeLabel = ''2 B''\<rparr> \<and>
   fst (getJob 6 ''sess'' ''1'' demoCompleted)
     = Inr (Some (toPublicJob (the (map_of (jobs demoCompleted) ''1'')))) \<and>
   (\<exists>job. toPublicJob (the (map_of (jobs demoCompleted) ''1'')) = toPublicJob job)"
proof -
  have e: "demoJob\<lparr>sessionId := ''x''\<rparr> = (demoJob\<lparr>sessionId := ''other''\<rparr>)\<lparr>sessionId := ''x''\<rparr>"
    by simp
  have g: "fst (getJob 6 ''sess'' ''1'' demoCompleted)
     = Inr (Some (toPublicJob (the (map_of (jobs demoCompleted) ''1''))))"
    by code_simp
  have d: "map pi_dataUrl (p_items (toPublicJob demoJob)) = [Some ''data:image/png;base64,TWFu'']"
    by code_simp
  have a: "p_archive (toPublicJob demoJob)
     = Some \<lparr>ar_filename = ''untitled_123.zip'', ar_size = 2, ar_sizeLabel = ''2 B''\<rparr>"
    by code_simp
  note t = C10_projection[where a = "''x''" and ?j1.0 = demoJob
      and ?j2.0 = "demoJob\<lparr>sessionId := ''other''\<rparr>"
      and pj = "toPublicJob (the (map_of (jobs demoCompleted) ''1''))"
      and now = 6 and sid = "''sess''" and jobId = "''1''" and s = demoCompleted]
  from t e have "toPublicJob demoJob = toPublicJob (demoJob\<lparr>sessionId := ''other''\<rparr>)"
    by blast
  moreover from t g
  have "\<exists>job. toPublicJob (the (map_of (jobs demoCompleted) ''1'')) = toPublicJob job"
    by blast
  ultimately show ?thesis using e g d a by blast
qed

end
